theory Spec2Isabelle
  imports Main "HOL-Library.Product_Lexorder"
begin

section \<open>The Minesweeper knowledge base of \<^verbatim>\<open>minesweeper/minesweeper.py\<close>\<close>

text \<open>
  A cell is a pair (row, column) of Python integers. A \<^verbatim>\<open>Sentence\<close> object has the two
  attributes \<^verbatim>\<open>cells\<close> (a Python set of cells) and \<^verbatim>\<open>count\<close> (an integer). Two sentences
  are compared by \<^verbatim>\<open>__eq__\<close>, which compares both attributes: that is the equality of the
  record.
\<close>

type_synonym cell = "int \<times> int"

record sentence =
  cells :: "cell set"
  count :: int

text \<open>
  The only exception the classes raise is the \<^verbatim>\<open>ValueError\<close> of \<^verbatim>\<open>Sentence.mark_mine\<close>.
  The methods update their object in place before they raise, so an outcome carries the
  object as it is when the method is left, on both exits.
\<close>

datatype error = ValueError

datatype 'a outcome = Returns 'a | Raises error 'a

subsection \<open>Class \<^verbatim>\<open>Sentence\<close>\<close>

text \<open>\<^verbatim>\<open>__init__\<close> copies the cells into a fresh set and stores the count; it checks nothing.\<close>

definition Sentence :: "cell set \<Rightarrow> int \<Rightarrow> sentence" where
  "Sentence cs n = \<lparr>cells = cs, count = n\<rparr>"

definition known_mines :: "sentence \<Rightarrow> cell set" where
  "known_mines s = (if int (card (cells s)) = count s then cells s else {})"

definition known_safes :: "sentence \<Rightarrow> cell set" where
  "known_safes s = (if count s = 0 then cells s else {})"

text \<open>
  \<^verbatim>\<open>Sentence.mark_mine\<close>: the test \<^verbatim>\<open>self.count < 0\<close> is outside the first \<^verbatim>\<open>if\<close>, so it is made
  whether or not the cell was a member, and after the update.
\<close>

definition Sentence_mark_mine :: "cell \<Rightarrow> sentence \<Rightarrow> sentence outcome" where
  "Sentence_mark_mine cell s =
     (let s' = (if cell \<in> cells s
                then s\<lparr>cells := cells s - {cell}, count := count s - 1\<rparr>
                else s)
      in if count s' < 0 then Raises ValueError s' else Returns s')"

definition Sentence_mark_safe :: "cell \<Rightarrow> sentence \<Rightarrow> sentence" where
  "Sentence_mark_safe cell s =
     (if cell \<in> cells s then s\<lparr>cells := cells s - {cell}\<rparr> else s)"

subsection \<open>Class \<^verbatim>\<open>MinesweeperAI\<close>\<close>

record ai =
  height :: int
  width :: int
  moves_made :: "cell set"
  mines :: "cell set"
  safes :: "cell set"
  knowledge :: "sentence list"

definition MinesweeperAI :: "int \<Rightarrow> int \<Rightarrow> ai" where
  "MinesweeperAI h w =
     \<lparr>height = h, width = w, moves_made = {}, mines = {}, safes = {}, knowledge = []\<rparr>"

text \<open>
  The loop \<^verbatim>\<open>for sentence in self.knowledge: sentence.mark_mine(cell)\<close> of
  \<^verbatim>\<open>MinesweeperAI.mark_mine\<close>. When a sentence raises, the sentences before it have been
  updated, the raising one is left as it was at the raise, and the later ones are untouched.
\<close>

fun mark_mine_each :: "cell \<Rightarrow> sentence list \<Rightarrow> sentence list outcome" where
  "mark_mine_each cell [] = Returns []"
| "mark_mine_each cell (s # ss) =
     (case Sentence_mark_mine cell s of
        Raises e s' \<Rightarrow> Raises e (s' # ss)
      | Returns s' \<Rightarrow>
          (case mark_mine_each cell ss of
             Raises e ss' \<Rightarrow> Raises e (s' # ss')
           | Returns ss' \<Rightarrow> Returns (s' # ss')))"

definition mark_mine :: "cell \<Rightarrow> ai \<Rightarrow> ai outcome" where
  "mark_mine cell st =
     (let st1 = st\<lparr>mines := insert cell (mines st)\<rparr>
      in case mark_mine_each cell (knowledge st1) of
           Raises e ks \<Rightarrow> Raises e (st1\<lparr>knowledge := ks\<rparr>)
         | Returns ks \<Rightarrow> Returns (st1\<lparr>knowledge := ks\<rparr>))"

definition mark_safe :: "cell \<Rightarrow> ai \<Rightarrow> ai" where
  "mark_safe cell st =
     st\<lparr>safes := insert cell (safes st),
        knowledge := map (Sentence_mark_safe cell) (knowledge st)\<rparr>"

subsection \<open>\<^verbatim>\<open>add_knowledge\<close>\<close>

text \<open>
  Steps 1 to 3: the cell is recorded as a move and marked safe, and the sentence over its
  neighbours is appended. The two \<^verbatim>\<open>range\<close> loops run over the rows
  \<^verbatim>\<open>cell[0] - 1 .. cell[0] + 1\<close> and the columns \<^verbatim>\<open>cell[1] - 1 .. cell[1] + 1\<close>.
\<close>

definition neighbors :: "ai \<Rightarrow> cell \<Rightarrow> cell set" where
  "neighbors st cell =
     set [(i, j). i \<leftarrow> [fst cell - 1 .. fst cell + 1], j \<leftarrow> [snd cell - 1 .. snd cell + 1],
            (i, j) \<noteq> cell \<and> 0 \<le> i \<and> i < height st \<and> 0 \<le> j \<and> j < width st]"

definition observe :: "ai \<Rightarrow> cell \<Rightarrow> int \<Rightarrow> ai" where
  "observe st cell n =
     (let st1 = st\<lparr>moves_made := insert cell (moves_made st)\<rparr>;
          st2 = mark_safe cell st1;
          new_sentence = Sentence (neighbors st2 cell) n
      in st2\<lparr>knowledge := knowledge st2 @ [new_sentence]\<rparr>)"

text \<open>
  Step 4 iterates over Python sets (\<^verbatim>\<open>sentence.known_mines().copy()\<close>), in an order the
  language does not fix. The order is a parameter \<open>iter\<close> of the model: it lists the elements
  of a finite set, each once.
\<close>

type_synonym iteration = "cell set \<Rightarrow> cell list"

definition enumerates :: "iteration \<Rightarrow> bool" where
  "enumerates iter \<longleftrightarrow> (\<forall>S. finite S \<longrightarrow> set (iter S) = S \<and> distinct (iter S))"

fun mark_mines :: "cell list \<Rightarrow> ai \<Rightarrow> ai outcome" where
  "mark_mines [] st = Returns st"
| "mark_mines (c # cs) st =
     (case mark_mine c st of
        Raises e st' \<Rightarrow> Raises e st'
      | Returns st' \<Rightarrow> mark_mines cs st')"

fun mark_safes :: "cell list \<Rightarrow> ai \<Rightarrow> ai" where
  "mark_safes [] st = st"
| "mark_safes (c # cs) st = mark_safes cs (mark_safe c st)"

text \<open>
  \<^verbatim>\<open>self.knowledge.copy()\<close> is a new list of the same \<^verbatim>\<open>Sentence\<close> objects, and
  \<^verbatim>\<open>mark_mine\<close> and \<^verbatim>\<open>mark_safe\<close> update the objects in place without adding or removing
  list entries. So the object the loop visits in its round \<open>i\<close> is entry \<open>i\<close> of the
  knowledge base as the earlier rounds left it. The known mines are read before the first
  inner loop, the known safes after it.
\<close>

definition conclude_at :: "iteration \<Rightarrow> nat \<Rightarrow> ai \<Rightarrow> ai outcome" where
  "conclude_at iter i st =
     (case mark_mines (iter (known_mines (knowledge st ! i))) st of
        Raises e st' \<Rightarrow> Raises e st'
      | Returns st' \<Rightarrow> Returns (mark_safes (iter (known_safes (knowledge st' ! i))) st'))"

fun conclude_each :: "iteration \<Rightarrow> nat list \<Rightarrow> ai \<Rightarrow> ai outcome" where
  "conclude_each iter [] st = Returns st"
| "conclude_each iter (i # is) st =
     (case conclude_at iter i st of
        Raises e st' \<Rightarrow> Raises e st'
      | Returns st' \<Rightarrow> conclude_each iter is st')"

definition conclude :: "iteration \<Rightarrow> ai \<Rightarrow> ai outcome" where
  "conclude iter st = conclude_each iter [0 ..< length (knowledge st)] st"

text \<open>
  The clean-up: two list comprehensions, then the loop that keeps the first of equal
  sentences.
\<close>

fun dedupe :: "sentence list \<Rightarrow> sentence list \<Rightarrow> sentence list" where
  "dedupe new_knowledge [] = new_knowledge"
| "dedupe new_knowledge (s # ss) =
     dedupe (if s \<notin> set new_knowledge then new_knowledge @ [s] else new_knowledge) ss"

definition cleanup :: "sentence list \<Rightarrow> sentence list" where
  "cleanup kb =
     (let kb1 = filter (\<lambda>s. cells s \<noteq> {}) kb;
          kb2 = filter (\<lambda>s. count s > 0 \<or> (count s = 0 \<and> cells s \<noteq> {})) kb1
      in dedupe [] kb2)"

text \<open>
  Step 5, the body of the two nested loops for one pair of sentences.
\<close>

definition infer_pair :: "sentence list \<Rightarrow> sentence \<Rightarrow> sentence \<Rightarrow> sentence list" where
  "infer_pair kb sentence1 sentence2 =
     (if sentence1 \<noteq> sentence2 then
        if cells sentence1 \<subseteq> cells sentence2 then
          let inferred_cells = cells sentence2 - cells sentence1;
              inferred_count = count sentence2 - count sentence1
          in if inferred_cells \<noteq> {} \<and> inferred_count \<ge> 0 then
               let new_sentence = Sentence inferred_cells inferred_count
               in if new_sentence \<notin> set kb then kb @ [new_sentence] else kb
             else kb
        else kb
      else kb)"

text \<open>
  Both loops iterate over \<^verbatim>\<open>self.knowledge\<close> itself while the body appends to it, and a
  Python list iterator compares its index with the current length: appended sentences are
  visited too, by both loops. \<open>i\<close> is the index of the outer iterator, \<open>j\<close> of the inner
  one. Nothing in the loop bounds the number of rounds, so not returning is the value
  \<open>None\<close>.
\<close>

partial_function (option) infer_loop :: "sentence list \<Rightarrow> nat \<Rightarrow> nat \<Rightarrow> sentence list option" where
  "infer_loop kb i j =
     (if i < length kb then
        if j < length kb then infer_loop (infer_pair kb (kb ! i) (kb ! j)) i (j + 1)
        else infer_loop kb (i + 1) 0
      else Some kb)"

declare infer_loop.simps [code]

text \<open>
  Steps 4 and 5 together, and the whole method. The two \<^verbatim>\<open>print\<close> calls are left out.
\<close>

definition inference :: "iteration \<Rightarrow> ai \<Rightarrow> ai outcome option" where
  "inference iter st =
     (case conclude iter st of
        Raises e st' \<Rightarrow> Some (Raises e st')
      | Returns st' \<Rightarrow>
          (case infer_loop (cleanup (knowledge st')) 0 0 of
             None \<Rightarrow> None
           | Some kb \<Rightarrow> Some (Returns (st'\<lparr>knowledge := kb\<rparr>))))"

definition add_knowledge :: "iteration \<Rightarrow> ai \<Rightarrow> cell \<Rightarrow> int \<Rightarrow> ai outcome option" where
  "add_knowledge iter st cell n = inference iter (observe st cell n)"

subsection \<open>Move selection\<close>

text \<open>
  Both methods only read the object; the model returns the object next to the answer.
  \<^verbatim>\<open>random.choice(choices)\<close> is \<^verbatim>\<open>choices[randbelow(len(choices))]\<close>; the generator is the
  parameter \<open>randbelow\<close>, which draws an index below its argument.
\<close>

definition make_safe_move :: "iteration \<Rightarrow> ai \<Rightarrow> cell option \<times> ai" where
  "make_safe_move iter st = (find (\<lambda>cell. cell \<notin> moves_made st) (iter (safes st)), st)"

definition choices :: "ai \<Rightarrow> cell list" where
  "choices st =
     [(i, j). i \<leftarrow> [0 .. height st - 1], j \<leftarrow> [0 .. width st - 1],
        (i, j) \<notin> moves_made st \<and> (i, j) \<notin> mines st]"

definition draws_below :: "(nat \<Rightarrow> nat) \<Rightarrow> bool" where
  "draws_below randbelow \<longleftrightarrow> (\<forall>n. 0 < n \<longrightarrow> randbelow n < n)"

definition make_random_move :: "(nat \<Rightarrow> nat) \<Rightarrow> ai \<Rightarrow> cell option \<times> ai" where
  "make_random_move randbelow st =
     (if choices st \<noteq> [] then (Some (choices st ! randbelow (length (choices st))), st)
      else (None, st))"

subsection \<open>Class \<^verbatim>\<open>Minesweeper\<close>: what the board answers\<close>

text \<open>
  The board is given by the set of its mine cells (\<^verbatim>\<open>board[i][j]\<close> is true for exactly these)
  and its height and width. \<^verbatim>\<open>nearby_mines\<close> counts, over the same two \<^verbatim>\<open>range\<close> loops as
  \<^verbatim>\<open>add_knowledge\<close>, the in-bounds cells other than the cell itself that are mines.
\<close>

definition nearby_mines :: "cell set \<Rightarrow> int \<Rightarrow> int \<Rightarrow> cell \<Rightarrow> int" where
  "nearby_mines board h w cell =
     int (length [(i, j). i \<leftarrow> [fst cell - 1 .. fst cell + 1], j \<leftarrow> [snd cell - 1 .. snd cell + 1],
            (i, j) \<noteq> cell \<and> 0 \<le> i \<and> i < h \<and> 0 \<le> j \<and> j < w \<and> (i, j) \<in> board])"

subsection \<open>Reachable states\<close>

text \<open>
  The states of a \<^verbatim>\<open>MinesweeperAI\<close> object that its public methods produce when they return,
  from a fresh object on. The two move methods leave the object as it is.
\<close>

inductive reachable :: "ai \<Rightarrow> bool" where
  fresh: "reachable (MinesweeperAI h w)"
| marked_mine: "reachable st \<Longrightarrow> mark_mine c st = Returns st' \<Longrightarrow> reachable st'"
| marked_safe: "reachable st \<Longrightarrow> reachable (mark_safe c st)"
| added_knowledge:
    "reachable st \<Longrightarrow> enumerates iter \<Longrightarrow> add_knowledge iter st c n = Some (Returns st')
     \<Longrightarrow> reachable st'"

subsection \<open>Play that agrees with a board\<close>

text \<open>
  A sentence describes a board when its count is the number of mines among its cells. An
  object agrees with a board when its \<^verbatim>\<open>mines\<close> are mines, its \<^verbatim>\<open>safes\<close> are not, and all its
  sentences describe the board. The states of play on a board: \<^verbatim>\<open>add_knowledge\<close> is called
  for a cell that is not a mine with the count the board answers (the board has the
  object's height and width), \<^verbatim>\<open>mark_mine\<close> for a mine, \<^verbatim>\<open>mark_safe\<close> for a cell that is not a
  mine.
\<close>

definition describes :: "cell set \<Rightarrow> sentence \<Rightarrow> bool" where
  "describes board s \<longleftrightarrow> finite (cells s) \<and> count s = int (card (cells s \<inter> board))"

definition agrees :: "cell set \<Rightarrow> ai \<Rightarrow> bool" where
  "agrees board st \<longleftrightarrow>
     mines st \<subseteq> board \<and> safes st \<inter> board = {} \<and> list_all (describes board) (knowledge st)"

inductive plays :: "cell set \<Rightarrow> ai \<Rightarrow> bool" for board :: "cell set" where
  fresh: "plays board (MinesweeperAI h w)"
| flagged: "plays board st \<Longrightarrow> c \<in> board \<Longrightarrow> mark_mine c st = Returns st' \<Longrightarrow> plays board st'"
| cleared: "plays board st \<Longrightarrow> c \<notin> board \<Longrightarrow> plays board (mark_safe c st)"
| revealed:
    "plays board st \<Longrightarrow> enumerates iter \<Longrightarrow> cell \<notin> board
     \<Longrightarrow> add_knowledge iter st cell (nearby_mines board (height st) (width st) cell) = Some (Returns st')
     \<Longrightarrow> plays board st'"

subsection \<open>A sentence that waits for its turn\<close>

text \<open>
  A notion for the proofs about step 4: entry \<open>m\<close> of the knowledge base has count 0, its
  cells are among \<open>N\<close>, and every cell of \<open>N\<close> it has lost is in \<^verbatim>\<open>safes\<close>.
\<close>

definition pending :: "nat \<Rightarrow> cell set \<Rightarrow> ai \<Rightarrow> bool" where
  "pending m N st \<longleftrightarrow>
     m < length (knowledge st) \<and> count (knowledge st ! m) = 0
     \<and> cells (knowledge st ! m) \<subseteq> N \<and> N \<subseteq> cells (knowledge st ! m) \<union> safes st"

section \<open>The iteration order and the random draw\<close>

text \<open>
  The runs on concrete objects below iterate the sets in ascending order. In these runs
  every set that step 4 iterates is empty, has one element or is a set of cells to mark safe,
  so every other order gives the same objects.
\<close>

lemma enumerates_sorted_list_of_set: "enumerates sorted_list_of_set"
  by (simp add: enumerates_def)

lemma enumerates_empty: "enumerates iter \<Longrightarrow> iter {} = []"
proof -
  assume "enumerates iter"
  then have "set (iter {}) = {}" by (simp add: enumerates_def)
  then show ?thesis by simp
qed

lemma draws_below_pred: "draws_below (\<lambda>n. n - 1)"
  by (simp add: draws_below_def)

section \<open>The sentence of an observation\<close>

lemma neighbors_eq:
  "neighbors st cell =
     {(i, j). \<bar>i - fst cell\<bar> \<le> 1 \<and> \<bar>j - snd cell\<bar> \<le> 1 \<and> (i, j) \<noteq> cell
        \<and> 0 \<le> i \<and> i < height st \<and> 0 \<le> j \<and> j < width st}"
  by (auto simp: neighbors_def)

lemma finite_neighbors: "finite (neighbors st cell)"
  by (simp add: neighbors_def)

lemma neighbors_origin:
  "2 \<le> height st \<Longrightarrow> 2 \<le> width st \<Longrightarrow> neighbors st (0, 0) = {(0, 1), (1, 0), (1, 1)}"
  unfolding neighbors_def by (auto simp: upto_rec_numeral)

section \<open>Constructing a sentence\<close>

text \<open>
  Claim C6, as amended. Constructing a \<^verbatim>\<open>Sentence\<close> never fails: for every set of cells and every
  integer count, inside the range from 0 to the number of cells or not, the constructor
  returns a sentence with that set and that count. So the sentence of an observation has the
  count the caller supplied.
\<close>

theorem Sentence_accepts_every_count:
  "cells (Sentence cs n) = cs \<and> count (Sentence cs n) = n
   \<and> count (last (knowledge (observe st cell n))) = n"
  by (simp add: Sentence_def observe_def Let_def)

text \<open>
  Claim C6 as stated fails: a sentence of one cell is constructed with count 5, and with
  count -1.
\<close>

theorem Sentence_unchecked_counterexample:
  "Sentence {(0, 1)} 5 = \<lparr>cells = {(0, 1)}, count = 5\<rparr>
   \<and> \<not> count (Sentence {(0, 1)} 5) \<le> int (card (cells (Sentence {(0, 1)} 5)))
   \<and> Sentence {(0, 1)} (- 1) = \<lparr>cells = {(0, 1)}, count = - 1\<rparr>"
  by (simp add: Sentence_def)

section \<open>Marking a cell in every sentence\<close>

lemma Sentence_mark_mine_Returns:
  "Sentence_mark_mine cell s = Returns s' \<Longrightarrow>
   s' = (if cell \<in> cells s then s\<lparr>cells := cells s - {cell}, count := count s - 1\<rparr> else s)
   \<and> 0 \<le> count s'"
  by (auto simp: Sentence_mark_mine_def Let_def split: if_splits)

lemma mark_mine_each_Returns_map:
  "mark_mine_each cell ss = Returns ss' \<Longrightarrow>
   ss' = map (\<lambda>p. if cell \<in> cells p then p\<lparr>cells := cells p - {cell}, count := count p - 1\<rparr> else p) ss"
proof (induction ss arbitrary: ss')
  case Nil
  then show ?case by simp
next
  case (Cons s ss)
  from Cons.prems obtain s1 ss1 where 1: "Sentence_mark_mine cell s = Returns s1"
    and 2: "mark_mine_each cell ss = Returns ss1" and 3: "ss' = s1 # ss1"
    by (auto split: outcome.splits)
  from Sentence_mark_mine_Returns [OF 1] Cons.IH [OF 2] 3 show ?case by simp
qed

lemma mark_mine_each_Returns_count:
  "mark_mine_each cell ss = Returns ss' \<Longrightarrow> p \<in> set ss' \<Longrightarrow> 0 \<le> count p"
proof (induction ss arbitrary: ss')
  case Nil
  then show ?case by simp
next
  case (Cons s ss)
  from Cons.prems(1) obtain s1 ss1 where 1: "Sentence_mark_mine cell s = Returns s1"
    and 2: "mark_mine_each cell ss = Returns ss1" and 3: "ss' = s1 # ss1"
    by (auto split: outcome.splits)
  from Sentence_mark_mine_Returns [OF 1] Cons.IH [OF 2] 3 Cons.prems(2) show ?case by auto
qed

lemma mark_mine_each_append_Raises:
  "mark_mine_each cell xs = Returns xs' \<Longrightarrow> Sentence_mark_mine cell s = Raises e s' \<Longrightarrow>
   mark_mine_each cell (xs @ s # ys) = Raises e (xs' @ s' # ys)"
  by (induction xs arbitrary: xs') (auto split: outcome.splits)

text \<open>
  Claim C10. When \<^verbatim>\<open>Sentence.mark_mine(cell)\<close> is called on a sentence that contains the cell
  and has count 0, it raises only after it has updated the sentence: the cell is gone from
  \<^verbatim>\<open>cells\<close> and the count is -1, and nothing is undone. When that happens inside
  \<^verbatim>\<open>MinesweeperAI.mark_mine\<close>, the cell is already in \<^verbatim>\<open>mines\<close> and every sentence before the
  raising one has been updated (the cell removed and the count decreased where the cell was
  a member), while the sentences after it are untouched.
\<close>

theorem mark_mine_raise_not_atomic:
  assumes "cell \<in> cells s" and "count s = 0"
    and "knowledge st = earlier @ s # later"
    and "mark_mine_each cell earlier = Returns earlier'"
  shows "Sentence_mark_mine cell s = Raises ValueError (s\<lparr>cells := cells s - {cell}, count := - 1\<rparr>)
    \<and> mark_mine cell st =
        Raises ValueError
          (st\<lparr>mines := insert cell (mines st),
              knowledge := earlier' @ s\<lparr>cells := cells s - {cell}, count := - 1\<rparr> # later\<rparr>)
    \<and> earlier' = map (\<lambda>p. if cell \<in> cells p
                            then p\<lparr>cells := cells p - {cell}, count := count p - 1\<rparr> else p) earlier"
proof -
  have s: "Sentence_mark_mine cell s = Raises ValueError (s\<lparr>cells := cells s - {cell}, count := - 1\<rparr>)"
    using assms(1,2) by (simp add: Sentence_mark_mine_def)
  have "mark_mine_each cell (earlier @ s # later)
          = Raises ValueError (earlier' @ s\<lparr>cells := cells s - {cell}, count := - 1\<rparr> # later)"
    using assms(4) s by (rule mark_mine_each_append_Raises)
  then have m: "mark_mine cell st =
        Raises ValueError
          (st\<lparr>mines := insert cell (mines st),
              knowledge := earlier' @ s\<lparr>cells := cells s - {cell}, count := - 1\<rparr> # later\<rparr>)"
    using assms(3) by (simp add: mark_mine_def)
  from s m mark_mine_each_Returns_map [OF assms(4)] show ?thesis by simp
qed

theorem mark_mine_raise_not_atomic_witness:
  "(0, 1) \<in> cells \<lparr>cells = {(0, 1), (1, 1)}, count = 0\<rparr>
   \<and> count \<lparr>cells = {(0, 1), (1, 1)}, count = 0\<rparr> = 0
   \<and> mark_mine_each (0, 1) [\<lparr>cells = {(0, 1), (1, 0)}, count = 1\<rparr>] = Returns [\<lparr>cells = {(1, 0)}, count = 0\<rparr>]
   \<and> Sentence_mark_mine (0, 1) \<lparr>cells = {(0, 1), (1, 1)}, count = 0\<rparr>
       = Raises ValueError \<lparr>cells = {(1, 1)}, count = - 1\<rparr>
   \<and> mark_mine (0, 1)
        \<lparr>height = 2, width = 2, moves_made = {}, mines = {}, safes = {},
         knowledge = [\<lparr>cells = {(0, 1), (1, 0)}, count = 1\<rparr>,
                      \<lparr>cells = {(0, 1), (1, 1)}, count = 0\<rparr>,
                      \<lparr>cells = {(0, 1)}, count = 1\<rparr>]\<rparr>
       = Raises ValueError
        \<lparr>height = 2, width = 2, moves_made = {}, mines = {(0, 1)}, safes = {},
         knowledge = [\<lparr>cells = {(1, 0)}, count = 0\<rparr>,
                      \<lparr>cells = {(1, 1)}, count = - 1\<rparr>,
                      \<lparr>cells = {(0, 1)}, count = 1\<rparr>]\<rparr>"
proof -
  have e: "mark_mine_each (0, 1) [\<lparr>cells = {(0, 1), (1, 0)}, count = 1\<rparr>] = Returns [\<lparr>cells = {(1, 0)}, count = 0\<rparr>]"
    by (simp add: Sentence_mark_mine_def insert_Diff_if)
  show ?thesis
    using mark_mine_raise_not_atomic [of "(0, 1)" "\<lparr>cells = {(0, 1), (1, 1)}, count = 0\<rparr>"
      "\<lparr>height = 2, width = 2, moves_made = {}, mines = {}, safes = {},
         knowledge = [\<lparr>cells = {(0, 1), (1, 0)}, count = 1\<rparr>,
                      \<lparr>cells = {(0, 1), (1, 1)}, count = 0\<rparr>,
                      \<lparr>cells = {(0, 1)}, count = 1\<rparr>]\<rparr>"
      "[\<lparr>cells = {(0, 1), (1, 0)}, count = 1\<rparr>]" "[\<lparr>cells = {(0, 1)}, count = 1\<rparr>]"
      "[\<lparr>cells = {(1, 0)}, count = 0\<rparr>]"] e
    by (simp add: insert_Diff_if)
qed

section \<open>Marking one cell both ways\<close>

text \<open>
  Claim C5, as amended. Neither \<^verbatim>\<open>mark_mine\<close> nor \<^verbatim>\<open>mark_safe\<close> looks at the other set. After
  \<^verbatim>\<open>mark_mine(c)\<close> has returned, \<^verbatim>\<open>mark_safe(c)\<close> leaves the cell in both \<^verbatim>\<open>mines\<close> and \<^verbatim>\<open>safes\<close>;
  after \<^verbatim>\<open>mark_safe(c)\<close>, \<^verbatim>\<open>mark_mine(c)\<close> leaves the cell in both sets too, whether it returns or
  raises the \<^verbatim>\<open>ValueError\<close> of a count gone negative. The second call is never without
  effect on its set.
\<close>

theorem mark_mine_mark_safe_overlap:
  "(case mark_mine c st of
      Returns st1 \<Rightarrow> c \<in> mines (mark_safe c st1) \<and> c \<in> safes (mark_safe c st1)
    | Raises e st1 \<Rightarrow> c \<in> mines st1)
   \<and> (case mark_mine c (mark_safe c st) of
        Returns st2 \<Rightarrow> c \<in> mines st2 \<and> c \<in> safes st2
      | Raises e st2 \<Rightarrow> c \<in> mines st2 \<and> c \<in> safes st2)"
  by (auto simp: mark_mine_def mark_safe_def Let_def split: outcome.splits)

text \<open>
  Claim C5 as stated fails: on a fresh object, \<^verbatim>\<open>mark_mine((0, 0))\<close> returns and
  \<^verbatim>\<open>mark_safe((0, 0))\<close> then leaves (0, 0) in both sets.
\<close>

theorem mark_both_counterexample:
  "mark_mine (0, 0) (MinesweeperAI 8 8)
     = Returns \<lparr>height = 8, width = 8, moves_made = {}, mines = {(0, 0)}, safes = {}, knowledge = []\<rparr>
   \<and> mark_safe (0, 0) \<lparr>height = 8, width = 8, moves_made = {}, mines = {(0, 0)}, safes = {}, knowledge = []\<rparr>
     = \<lparr>height = 8, width = 8, moves_made = {}, mines = {(0, 0)}, safes = {(0, 0)}, knowledge = []\<rparr>
   \<and> mines \<lparr>height = 8, width = 8, moves_made = {}, mines = {(0, 0)}, safes = {(0, 0)}, knowledge = []\<rparr>
       \<inter> safes \<lparr>height = 8, width = 8, moves_made = {}, mines = {(0, 0)}, safes = {(0, 0)}, knowledge = []\<rparr> \<noteq> {}"
  by (simp add: mark_mine_def mark_safe_def MinesweeperAI_def)

section \<open>Move selection\<close>

lemma find_None_iff_all: "find P xs = None \<longleftrightarrow> (\<forall>x \<in> set xs. \<not> P x)"
  by (induction xs) auto

text \<open>
  Claim C8. \<^verbatim>\<open>make_safe_move()\<close> returns only cells that are in \<^verbatim>\<open>safes\<close> and not in
  \<^verbatim>\<open>moves_made\<close>, returns one whenever there is one, returns \<^verbatim>\<open>None\<close> exactly when there is
  none, and leaves the object unchanged. This holds for every iteration order of the set.
\<close>

theorem make_safe_move_correct:
  assumes "enumerates iter" and "finite (safes st)"
  shows "(\<forall>c. fst (make_safe_move iter st) = Some c \<longrightarrow> c \<in> safes st \<and> c \<notin> moves_made st)
     \<and> (safes st - moves_made st \<noteq> {} \<longrightarrow> (\<exists>c. fst (make_safe_move iter st) = Some c))
     \<and> (fst (make_safe_move iter st) = None \<longleftrightarrow> safes st - moves_made st = {})
     \<and> snd (make_safe_move iter st) = st"
proof -
  have s: "set (iter (safes st)) = safes st"
    using assms by (simp add: enumerates_def)
  have 1: "\<forall>c. fst (make_safe_move iter st) = Some c \<longrightarrow> c \<in> safes st \<and> c \<notin> moves_made st"
    using s by (auto simp: make_safe_move_def find_Some_iff)
  have 2: "fst (make_safe_move iter st) = None \<longleftrightarrow> safes st - moves_made st = {}"
    using s by (auto simp: make_safe_move_def find_None_iff_all)
  have 3: "safes st - moves_made st \<noteq> {} \<longrightarrow> (\<exists>c. fst (make_safe_move iter st) = Some c)"
    using 2 by auto
  show ?thesis using 1 2 3 by (simp add: make_safe_move_def)
qed

theorem make_safe_move_correct_witness:
  "enumerates sorted_list_of_set
   \<and> finite (safes \<lparr>height = 2, width = 2, moves_made = {(0, 0)}, mines = {}, safes = {(0, 0), (0, 1)}, knowledge = []\<rparr>)
   \<and> make_safe_move sorted_list_of_set
        \<lparr>height = 2, width = 2, moves_made = {(0, 0)}, mines = {}, safes = {(0, 0), (0, 1)}, knowledge = []\<rparr>
      = (Some (0, 1), \<lparr>height = 2, width = 2, moves_made = {(0, 0)}, mines = {}, safes = {(0, 0), (0, 1)}, knowledge = []\<rparr>)
   \<and> (0, 1) \<in> safes \<lparr>height = 2, width = 2, moves_made = {(0, 0)}, mines = {}, safes = {(0, 0), (0, 1)}, knowledge = []\<rparr>
   \<and> (0, 1) \<notin> moves_made \<lparr>height = 2, width = 2, moves_made = {(0, 0)}, mines = {}, safes = {(0, 0), (0, 1)}, knowledge = []\<rparr>"
proof -
  have e: "make_safe_move sorted_list_of_set
        \<lparr>height = 2, width = 2, moves_made = {(0, 0)}, mines = {}, safes = {(0, 0), (0, 1)}, knowledge = []\<rparr>
      = (Some (0, 1), \<lparr>height = 2, width = 2, moves_made = {(0, 0)}, mines = {}, safes = {(0, 0), (0, 1)}, knowledge = []\<rparr>)"
    by code_simp
  have f: "finite (safes \<lparr>height = 2, width = 2, moves_made = {(0, 0)}, mines = {}, safes = {(0, 0), (0, 1)}, knowledge = []\<rparr>)"
    by simp
  show ?thesis
    using make_safe_move_correct [OF enumerates_sorted_list_of_set f] e enumerates_sorted_list_of_set
    by simp
qed

lemma set_choices:
  "set (choices st) =
     {(i, j). 0 \<le> i \<and> i < height st \<and> 0 \<le> j \<and> j < width st} - moves_made st - mines st"
  by (auto simp: choices_def)

text \<open>
  Claim C9. \<^verbatim>\<open>make_random_move()\<close> returns only board cells that are neither in \<^verbatim>\<open>moves_made\<close> nor
  in \<^verbatim>\<open>mines\<close>, returns \<^verbatim>\<open>None\<close> exactly when there is no such cell, and leaves the object
  unchanged. This holds for every draw of the generator.
\<close>

theorem make_random_move_correct:
  assumes "draws_below randbelow"
  shows "(\<forall>c. fst (make_random_move randbelow st) = Some c \<longrightarrow>
            c \<in> {(i, j). 0 \<le> i \<and> i < height st \<and> 0 \<le> j \<and> j < width st} - moves_made st - mines st)
     \<and> (fst (make_random_move randbelow st) = None \<longleftrightarrow>
            {(i, j). 0 \<le> i \<and> i < height st \<and> 0 \<le> j \<and> j < width st} - moves_made st - mines st = {})
     \<and> snd (make_random_move randbelow st) = st"
proof (cases "choices st = []")
  case True
  then have "set (choices st) = {}" by simp
  then show ?thesis using True unfolding set_choices by (simp add: make_random_move_def)
next
  case False
  then have "randbelow (length (choices st)) < length (choices st)"
    using assms by (simp add: draws_below_def)
  then have "choices st ! randbelow (length (choices st)) \<in> set (choices st)"
    by (rule nth_mem)
  moreover have "set (choices st) \<noteq> {}" using False by simp
  ultimately show ?thesis using False unfolding set_choices by (simp add: make_random_move_def)
qed

theorem make_random_move_correct_witness:
  "draws_below (\<lambda>n. n - 1)
   \<and> make_random_move (\<lambda>n. n - 1)
        \<lparr>height = 2, width = 2, moves_made = {(0, 0)}, mines = {(1, 1)}, safes = {(0, 0)}, knowledge = []\<rparr>
      = (Some (1, 0), \<lparr>height = 2, width = 2, moves_made = {(0, 0)}, mines = {(1, 1)}, safes = {(0, 0)}, knowledge = []\<rparr>)
   \<and> (1, 0) \<in> {(i, j). 0 \<le> i \<and> i < (2::int) \<and> 0 \<le> j \<and> j < (2::int)} - {(0, 0)} - {(1, 1)}"
proof -
  have e: "make_random_move (\<lambda>n. n - 1)
        \<lparr>height = 2, width = 2, moves_made = {(0, 0)}, mines = {(1, 1)}, safes = {(0, 0)}, knowledge = []\<rparr>
      = (Some (1, 0), \<lparr>height = 2, width = 2, moves_made = {(0, 0)}, mines = {(1, 1)}, safes = {(0, 0)}, knowledge = []\<rparr>)"
    by code_simp
  show ?thesis
    using make_random_move_correct [OF draws_below_pred,
      of "\<lparr>height = 2, width = 2, moves_made = {(0, 0)}, mines = {(1, 1)}, safes = {(0, 0)}, knowledge = []\<rparr>"]
      e draws_below_pred
    by simp
qed

section \<open>The counts of the knowledge base\<close>

lemma set_dedupe: "set (dedupe acc xs) = set acc \<union> set xs"
  by (induction xs arbitrary: acc) auto

lemma cleanup_retained:
  "s \<in> set (cleanup kb) \<Longrightarrow> s \<in> set kb \<and> cells s \<noteq> {} \<and> 0 \<le> count s"
  by (auto simp: cleanup_def set_dedupe)

lemma infer_pair_new:
  "s \<in> set (infer_pair kb s1 s2) \<Longrightarrow> s \<notin> set kb \<Longrightarrow>
   s = Sentence (cells s2 - cells s1) (count s2 - count s1) \<and> s1 \<noteq> s2 \<and> cells s1 \<subseteq> cells s2
   \<and> cells s \<noteq> {} \<and> 0 \<le> count s"
  by (auto simp: infer_pair_def Let_def Sentence_def split: if_splits)

lemma infer_loop_sentences:
  assumes "infer_loop kb0 i0 j0 = Some r"
  shows "\<forall>s \<in> set r. s \<in> set kb0 \<or> (cells s \<noteq> {} \<and> 0 \<le> count s)"
proof (rule infer_loop.raw_induct
    [where P = "\<lambda>kb i j r. \<forall>s \<in> set r. s \<in> set kb \<or> (cells s \<noteq> {} \<and> 0 \<le> count s)",
     OF _ assms])
  fix loop :: "sentence list \<Rightarrow> nat \<Rightarrow> nat \<Rightarrow> sentence list option" and kb i j r
  assume IH: "\<And>kb i j r. loop kb i j = Some r \<Longrightarrow>
                \<forall>s \<in> set r. s \<in> set kb \<or> (cells s \<noteq> {} \<and> 0 \<le> count s)"
  assume body: "(if i < length kb
      then if j < length kb then loop (infer_pair kb (kb ! i) (kb ! j)) i (j + 1)
           else loop kb (i + 1) 0
      else Some kb) = Some r"
  show "\<forall>s \<in> set r. s \<in> set kb \<or> (cells s \<noteq> {} \<and> 0 \<le> count s)"
  proof (cases "i < length kb")
    case False
    with body show ?thesis by simp
  next
    case i: True
    show ?thesis
    proof (cases "j < length kb")
      case True
      with i body have "loop (infer_pair kb (kb ! i) (kb ! j)) i (j + 1) = Some r"
        by simp
      from IH [OF this] show ?thesis
        using infer_pair_new [of _ kb "kb ! i" "kb ! j"] by blast
    next
      case False
      with i body have "loop kb (i + 1) 0 = Some r" by simp
      from IH [OF this] show ?thesis .
    qed
  qed
qed

lemma inference_Returns_count:
  assumes "inference iter st = Some (Returns st')" and "s \<in> set (knowledge st')"
  shows "cells s \<noteq> {} \<and> 0 \<le> count s"
proof -
  from assms(1) obtain st4 kb where c: "conclude iter st = Returns st4"
    and l: "infer_loop (cleanup (knowledge st4)) 0 0 = Some kb"
    and st': "st' = st4\<lparr>knowledge := kb\<rparr>"
    by (auto simp: inference_def split: outcome.splits option.splits)
  from assms(2) st' have "s \<in> set kb" by simp
  with infer_loop_sentences [OF l] show ?thesis
    using cleanup_retained by blast
qed

lemma mark_safe_count:
  "s \<in> set (knowledge (mark_safe c st)) \<Longrightarrow> \<exists>s' \<in> set (knowledge st). count s = count s'"
  by (auto simp: mark_safe_def Sentence_mark_safe_def)

lemma mark_mine_Returns_count:
  "mark_mine c st = Returns st' \<Longrightarrow> s \<in> set (knowledge st') \<Longrightarrow> 0 \<le> count s"
  by (auto simp: mark_mine_def Let_def split: outcome.splits dest: mark_mine_each_Returns_count)

lemma reachable_count_nonnegative:
  "(reachable st \<longrightarrow> (\<forall>s \<in> set (knowledge st). 0 \<le> count s))
   \<and> (\<forall>s \<in> set (infer_pair kb sentence1 sentence2) - set kb.
         s = Sentence (cells sentence2 - cells sentence1) (count sentence2 - count sentence1)
         \<and> cells s \<noteq> {} \<and> 0 \<le> count s)"
proof -
  have "reachable st \<Longrightarrow> \<forall>s \<in> set (knowledge st). 0 \<le> count s"
  proof (induction rule: reachable.induct)
    case (fresh h w)
    show ?case by (simp add: MinesweeperAI_def)
  next
    case (marked_mine st c st')
    then show ?case using mark_mine_Returns_count by blast
  next
    case (marked_safe st c)
    then show ?case using mark_safe_count by fastforce
  next
    case (added_knowledge st iter c n st')
    then show ?case using inference_Returns_count unfolding add_knowledge_def by blast
  qed
  then show ?thesis using infer_pair_new by blast
qed

section \<open>Step 4: marking what the sentences settle\<close>

lemma conclude_each_preserves:
  assumes safe: "\<And>c st. Q st \<Longrightarrow> Q (mark_safe c st)"
    and mine: "\<And>c st st'. mark_mine c st = Returns st' \<Longrightarrow> Q st \<Longrightarrow> Q st'"
  shows "conclude_each iter is st = Returns st' \<Longrightarrow> Q st \<Longrightarrow> Q st'"
proof (induction "is" arbitrary: st)
  case Nil
  then show ?case by simp
next
  case (Cons i "is")
  from Cons.prems(1) obtain st1 where 1: "conclude_at iter i st = Returns st1"
    and 2: "conclude_each iter is st1 = Returns st'"
    by (auto split: outcome.splits)
  from 1 obtain st0 where 3: "mark_mines (iter (known_mines (knowledge st ! i))) st = Returns st0"
    and 4: "st1 = mark_safes (iter (known_safes (knowledge st0 ! i))) st0"
    by (auto simp: conclude_at_def split: outcome.splits)
  have mines: "mark_mines cs s = Returns s' \<Longrightarrow> Q s \<Longrightarrow> Q s'" for cs s s'
    by (induction cs arbitrary: s) (auto split: outcome.splits intro: mine)
  have safes: "Q s \<Longrightarrow> Q (mark_safes cs s)" for cs s
    by (induction cs arbitrary: s) (auto intro: safe)
  from mines [OF 3 Cons.prems(2)] have "Q st0" .
  then have "Q st1" unfolding 4 by (rule safes)
  with Cons.IH [OF 2] show ?case .
qed

lemma pending_mark_safe: "pending m N st \<Longrightarrow> pending m N (mark_safe c st)"
  by (auto simp: pending_def mark_safe_def Sentence_mark_safe_def)

lemma safes_mark_safes: "safes (mark_safes cs st) = safes st \<union> set cs"
  by (induction cs arbitrary: st) (auto simp: mark_safe_def)

text \<open>
  Marking a list of cells safe gives the same object for every order of the list.
\<close>

lemma mark_safes_all:
  "mark_safes cs st =
     st\<lparr>safes := safes st \<union> set cs,
        knowledge := map (\<lambda>s. s\<lparr>cells := cells s - set cs\<rparr>) (knowledge st)\<rparr>"
proof (induction cs arbitrary: st)
  case Nil
  show ?case by simp
next
  case (Cons c cs)
  have one: "Sentence_mark_safe c s = s\<lparr>cells := cells s - {c}\<rparr>" for s
    by (simp add: Sentence_mark_safe_def)
  have two: "A - {c} - set cs = A - set (c # cs)" for A :: "cell set"
    by auto
  have "(\<lambda>s. s\<lparr>cells := cells s - set cs\<rparr>) \<circ> Sentence_mark_safe c
          = (\<lambda>s. s\<lparr>cells := cells s - set (c # cs)\<rparr>)"
    unfolding fun_eq_iff comp_def one two [symmetric] by simp
  moreover have "insert c (safes st) \<union> set cs = safes st \<union> set (c # cs)"
    by auto
  ultimately show ?case
    by (simp add: Cons.IH mark_safe_def)
qed

lemma pending_mark_mine:
  assumes "mark_mine c st = Returns st'" and "pending m N st"
  shows "pending m N st'"
proof -
  from assms(1) obtain ks where ks: "mark_mine_each c (knowledge st) = Returns ks"
    and st': "st' = st\<lparr>mines := insert c (mines st), knowledge := ks\<rparr>"
    by (auto simp: mark_mine_def Let_def split: outcome.splits)
  let ?upd = "\<lambda>p. if c \<in> cells p then p\<lparr>cells := cells p - {c}, count := count p - 1\<rparr> else p"
  have map: "ks = map ?upd (knowledge st)"
    using mark_mine_each_Returns_map [OF ks] .
  from assms(2) have m: "m < length (knowledge st)" by (simp add: pending_def)
  then have nth: "ks ! m = ?upd (knowledge st ! m)" using map by simp
  have "ks ! m \<in> set ks" using m map by simp
  then have "0 \<le> count (ks ! m)" using mark_mine_each_Returns_count [OF ks] by blast
  with nth assms(2) have "c \<notin> cells (knowledge st ! m)"
    by (auto simp: pending_def split: if_splits)
  with nth have "ks ! m = knowledge st ! m" by simp
  with assms(2) m map st' show ?thesis by (simp add: pending_def)
qed

lemma pending_conclude_each:
  "conclude_each iter is st = Returns st' \<Longrightarrow> pending m N st \<Longrightarrow> pending m N st'"
  by (rule conclude_each_preserves [where Q = "pending m N"])
    (auto intro: pending_mark_safe pending_mark_mine)

lemma conclude_each_append:
  "conclude_each iter (xs @ ys) st =
     (case conclude_each iter xs st of
        Raises e st' \<Rightarrow> Raises e st'
      | Returns st' \<Rightarrow> conclude_each iter ys st')"
  by (induction xs arbitrary: st) (auto split: outcome.splits)

lemma pending_resolved:
  assumes "enumerates iter" and "finite N" and "pending m N st"
    and "conclude_at iter m st = Returns st'"
  shows "N \<subseteq> safes st'"
proof -
  let ?s = "knowledge st ! m"
  from assms(3) have c: "count ?s = 0" and sub: "cells ?s \<subseteq> N" and cov: "N \<subseteq> cells ?s \<union> safes st"
    by (simp_all add: pending_def)
  from sub assms(2) have fin: "finite (cells ?s)" by (rule finite_subset)
  have "known_mines ?s = {}" using c fin by (simp add: known_mines_def)
  moreover have "iter {} = []" using assms(1) by (rule enumerates_empty)
  ultimately have "mark_mines (iter (known_mines ?s)) st = Returns st" by simp
  with assms(4) have st': "st' = mark_safes (iter (known_safes ?s)) st"
    by (simp add: conclude_at_def)
  have "known_safes ?s = cells ?s" using c by (simp add: known_safes_def)
  moreover have "set (iter (cells ?s)) = cells ?s" using assms(1) fin by (simp add: enumerates_def)
  ultimately have "safes st' = safes st \<union> cells ?s" using st' by (simp add: safes_mark_safes)
  with cov show ?thesis by auto
qed

lemma pending_observe:
  "pending (length (knowledge st)) (neighbors st cell) (observe st cell 0)"
  by (auto simp: pending_def observe_def Let_def mark_safe_def Sentence_def neighbors_eq nth_append)

lemma length_observe: "length (knowledge (observe st cell n)) = Suc (length (knowledge st))"
  by (simp add: observe_def Let_def mark_safe_def)

lemma safes_inference:
  assumes "inference iter st = Some (Returns st')"
  shows "\<exists>st4. conclude iter st = Returns st4 \<and> safes st' = safes st4 \<and> mines st' = mines st4"
  using assms by (auto simp: inference_def split: outcome.splits option.splits)

lemma zero_count_neighbors_safe:
  assumes "enumerates iter" and "add_knowledge iter st cell 0 = Some (Returns st')"
  shows "neighbors st cell \<subseteq> safes st'"
proof -
  let ?m = "length (knowledge st)"
  let ?st3 = "observe st cell 0"
  from assms(2) obtain st4 where c: "conclude iter ?st3 = Returns st4" and s: "safes st' = safes st4"
    using safes_inference unfolding add_knowledge_def by blast
  have "[0 ..< length (knowledge ?st3)] = [0 ..< ?m] @ [?m]"
    by (simp add: length_observe)
  with c have "(case conclude_each iter [0 ..< ?m] ?st3 of
        Raises e st' \<Rightarrow> Raises e st'
      | Returns st' \<Rightarrow> conclude_each iter [?m] st') = Returns st4"
    by (simp add: conclude_def conclude_each_append)
  then obtain st5 where 5: "conclude_each iter [0 ..< ?m] ?st3 = Returns st5"
    and 6: "conclude_at iter ?m st5 = Returns st4"
    by (auto split: outcome.splits)
  have "pending ?m (neighbors st cell) st5"
    using pending_conclude_each [OF 5 pending_observe] .
  from pending_resolved [OF assms(1) finite_neighbors this 6] s show ?thesis by simp
qed

section \<open>The subset rule comes to an end\<close>

lemma infer_pair_cases:
  "infer_pair kb s1 s2 = kb \<or>
   (infer_pair kb s1 s2 = kb @ [Sentence (cells s2 - cells s1) (count s2 - count s1)]
    \<and> Sentence (cells s2 - cells s1) (count s2 - count s1) \<notin> set kb
    \<and> 0 \<le> count s2 - count s1)"
  by (simp add: infer_pair_def Let_def)

lemma infer_loop_terminates:
  assumes X: "finite X"
  shows "(\<forall>s \<in> set kb. cells s \<subseteq> X \<and> 0 \<le> count s \<and> count s \<le> M) \<Longrightarrow>
         \<exists>r. infer_loop kb i j = Some r"
proof -
  define U where "U = (\<lambda>(c, n). \<lparr>cells = c, count = n\<rparr>) ` (Pow X \<times> {0 .. M})"
  have finU: "finite U" using X by (simp add: U_def)
  have inU: "s \<in> U" if "cells s \<subseteq> X" "0 \<le> count s" "count s \<le> M" for s :: sentence
  proof -
    have "s = (\<lambda>(c, n). \<lparr>cells = c, count = n\<rparr>) (cells s, count s)" by simp
    moreover have "(cells s, count s) \<in> Pow X \<times> {0 .. M}" using that by simp
    ultimately show ?thesis unfolding U_def by (rule image_eqI)
  qed
  define R where "R = measures [\<lambda>(kb, i, j). card (U - set kb),
      \<lambda>(kb, i, j). length kb - i, \<lambda>(kb :: sentence list, i :: nat, j). length kb - j]"
  have wfR: "wf R" by (simp add: R_def)
  have "(\<forall>s \<in> set (fst x). cells s \<subseteq> X \<and> 0 \<le> count s \<and> count s \<le> M) \<longrightarrow>
        (\<exists>r. infer_loop (fst x) (fst (snd x)) (snd (snd x)) = Some r)" for x
    using wfR
  proof (induction x rule: wf_induct_rule)
    case (less x)
    obtain kb i j where x: "x = (kb, i, j)" by (cases x) auto
    show ?case
    proof
      assume inv: "\<forall>s \<in> set (fst x). cells s \<subseteq> X \<and> 0 \<le> count s \<and> count s \<le> M"
      show "\<exists>r. infer_loop (fst x) (fst (snd x)) (snd (snd x)) = Some r"
      proof (cases "i < length kb")
        case False
        then have "infer_loop kb i j = Some kb" by (subst infer_loop.simps) simp
        then show ?thesis using x by simp
      next
        case i: True
        show ?thesis
        proof (cases "j < length kb")
          case False
          have "((kb, i + 1, 0), x) \<in> R" using i x by (auto simp: R_def)
          from less [OF this] inv x obtain r where "infer_loop kb (i + 1) 0 = Some r" by auto
          moreover have "infer_loop kb i j = infer_loop kb (i + 1) 0"
            using i False by (subst infer_loop.simps) simp
          ultimately show ?thesis using x by simp
        next
          case j: True
          let ?kb' = "infer_pair kb (kb ! i) (kb ! j)"
          let ?ns = "Sentence (cells (kb ! j) - cells (kb ! i)) (count (kb ! j) - count (kb ! i))"
          have step: "infer_loop kb i j = infer_loop ?kb' i (j + 1)"
            using i j by (subst infer_loop.simps) simp
          have si: "kb ! i \<in> set kb" and sj: "kb ! j \<in> set kb" using i j by simp_all
          from inv x si have ci: "0 \<le> count (kb ! i)" by simp
          from inv x sj have cj: "count (kb ! j) \<le> M" and xj: "cells (kb ! j) \<subseteq> X" by simp_all
          from infer_pair_cases [of kb "kb ! i" "kb ! j"]
          show ?thesis
          proof
            assume same: "?kb' = kb"
            have "((kb, i, j + 1), x) \<in> R" using j x by (auto simp: R_def)
            from less [OF this] inv x obtain r where "infer_loop kb i (j + 1) = Some r" by auto
            with step same x show ?thesis by simp
          next
            assume new: "?kb' = kb @ [?ns] \<and> ?ns \<notin> set kb \<and> 0 \<le> count (kb ! j) - count (kb ! i)"
            have "cells ?ns \<subseteq> X" using xj by (auto simp: Sentence_def)
            moreover have "0 \<le> count ?ns" using new by (simp add: Sentence_def)
            moreover have "count ?ns \<le> M" using ci cj by (simp add: Sentence_def)
            ultimately have nsU: "?ns \<in> U" by (rule inU)
            have inv': "\<forall>s \<in> set ?kb'. cells s \<subseteq> X \<and> 0 \<le> count s \<and> count s \<le> M"
              using new inv x \<open>cells ?ns \<subseteq> X\<close> \<open>0 \<le> count ?ns\<close> \<open>count ?ns \<le> M\<close> by auto
            have eq: "U - set ?kb' = (U - set kb) - {?ns}" using new by auto
            have mem: "?ns \<in> U - set kb" using nsU new by simp
            have fin: "finite (U - set kb)" using finU by simp
            have "card ((U - set kb) - {?ns}) < card (U - set kb)"
              using fin mem by (rule card_Diff1_less)
            then have "card (U - set ?kb') < card (U - set kb)"
              unfolding eq .
            then have "((?kb', i, j + 1), x) \<in> R" using x by (simp add: R_def)
            from less [OF this] inv' obtain r where "infer_loop ?kb' i (j + 1) = Some r" by auto
            with step x show ?thesis by simp
          qed
        qed
      qed
    qed
  qed
  from this [of "(kb, i, j)"]
  show "(\<forall>s \<in> set kb. cells s \<subseteq> X \<and> 0 \<le> count s \<and> count s \<le> M) \<Longrightarrow>
         \<exists>r. infer_loop kb i j = Some r" by simp
qed

text \<open>
  So \<^verbatim>\<open>add_knowledge\<close> always returns or raises: the loops of step 5 stop, because the
  clean-up leaves finitely many sentences with counts of at least 0, and every sentence the
  rule adds is new, lies within the cells of those and has a count between 0 and theirs.
\<close>

lemma add_knowledge_terminates:
  assumes "\<forall>s \<in> set (knowledge st). finite (cells s)"
  shows "\<exists>r. add_knowledge iter st cell n = Some r"
proof -
  let ?Q = "\<lambda>st. \<forall>s \<in> set (knowledge st). finite (cells s)"
  have safe: "?Q (mark_safe c st)" if "?Q st" for c st
    using that by (auto simp: mark_safe_def Sentence_mark_safe_def)
  have mine: "?Q st'" if "mark_mine c st = Returns st'" "?Q st" for c st st'
  proof -
    from that(1) obtain ks where ks: "mark_mine_each c (knowledge st) = Returns ks"
      and st': "knowledge st' = ks"
      by (auto simp: mark_mine_def Let_def split: outcome.splits)
    from mark_mine_each_Returns_map [OF ks] that(2) st' show ?thesis by auto
  qed
  have obs: "?Q (observe st cell n)"
    using assms by (auto simp: observe_def Let_def mark_safe_def Sentence_mark_safe_def Sentence_def finite_neighbors)
  show ?thesis
  proof (cases "conclude iter (observe st cell n)")
    case (Raises e st4)
    then show ?thesis by (simp add: add_knowledge_def inference_def)
  next
    case (Returns st4)
    then have "conclude_each iter [0 ..< length (knowledge (observe st cell n))] (observe st cell n) = Returns st4"
      by (simp add: conclude_def)
    then have fin: "?Q st4"
    proof (rule conclude_each_preserves [where Q = ?Q, rotated 2])
      show "?Q (observe st cell n)" by (rule obs)
      show "\<And>c st. ?Q st \<Longrightarrow> ?Q (mark_safe c st)" by (rule safe)
      show "\<And>c st st'. mark_mine c st = Returns st' \<Longrightarrow> ?Q st \<Longrightarrow> ?Q st'" by (rule mine)
    qed
    let ?kb = "cleanup (knowledge st4)"
    let ?X = "\<Union> (cells ` set ?kb)"
    let ?M = "Max (insert 0 (count ` set ?kb))"
    have "finite ?X" using fin cleanup_retained by blast
    moreover have "\<forall>s \<in> set ?kb. cells s \<subseteq> ?X \<and> 0 \<le> count s \<and> count s \<le> ?M"
      using cleanup_retained by auto
    ultimately obtain r where "infer_loop ?kb 0 0 = Some r"
      using infer_loop_terminates by blast
    with Returns show ?thesis by (simp add: add_knowledge_def inference_def)
  qed
qed

section \<open>Play that agrees with a board\<close>

lemma distinct_pairs:
  "distinct xs \<Longrightarrow> distinct ys \<Longrightarrow> distinct [(i, j). i \<leftarrow> xs, j \<leftarrow> ys, P i j]"
proof (induction xs)
  case Nil
  show ?case by simp
next
  case (Cons x xs)
  have row: "distinct (concat (map (\<lambda>j. if P x j then [(x, j)] else []) ys))"
    using Cons.prems(2) by (induction ys) auto
  from Cons row show ?case by (auto split: if_splits)
qed

lemma nearby_mines_card:
  "nearby_mines board (height st) (width st) cell = int (card (neighbors st cell \<inter> board))"
proof -
  let ?xs = "[(i, j). i \<leftarrow> [fst cell - 1 .. fst cell + 1], j \<leftarrow> [snd cell - 1 .. snd cell + 1],
            (i, j) \<noteq> cell \<and> 0 \<le> i \<and> i < height st \<and> 0 \<le> j \<and> j < width st \<and> (i, j) \<in> board]"
  have "distinct ?xs" by (rule distinct_pairs) simp_all
  then have "card (set ?xs) = length ?xs" by (rule distinct_card)
  moreover have "set ?xs = neighbors st cell \<inter> board"
    by (auto simp: neighbors_def)
  ultimately show ?thesis by (simp add: nearby_mines_def)
qed

lemma describes_bounds:
  assumes "describes board s"
  shows "0 \<le> count s \<and> count s \<le> int (card (cells s))"
proof -
  from assms have f: "finite (cells s)" and c: "count s = int (card (cells s \<inter> board))"
    by (simp_all add: describes_def)
  have "card (cells s \<inter> board) \<le> card (cells s)"
    using f by (intro card_mono) auto
  with c show ?thesis by simp
qed

lemma describes_mark_safe:
  assumes "describes board s" and "c \<notin> board"
  shows "describes board (Sentence_mark_safe c s)"
proof -
  have "(cells s - {c}) \<inter> board = cells s \<inter> board" using assms(2) by auto
  with assms(1) show ?thesis by (simp add: describes_def Sentence_mark_safe_def)
qed

lemma describes_mark_mine:
  assumes "describes board s" and "c \<in> board"
  shows "\<exists>s'. Sentence_mark_mine c s = Returns s' \<and> describes board s'"
proof (cases "c \<in> cells s")
  case False
  with assms(1) show ?thesis by (simp add: Sentence_mark_mine_def describes_def)
next
  case True
  from assms(1) have f: "finite (cells s)" and n: "count s = int (card (cells s \<inter> board))"
    by (simp_all add: describes_def)
  have eq: "(cells s - {c}) \<inter> board = (cells s \<inter> board) - {c}" by auto
  have mem: "c \<in> cells s \<inter> board" using True assms(2) by simp
  have fin: "finite (cells s \<inter> board)" using f by simp
  have pos: "0 < card (cells s \<inter> board)" using fin mem by (auto simp: card_gt_0_iff)
  have "card ((cells s \<inter> board) - {c}) = card (cells s \<inter> board) - 1"
    using mem by (simp add: card_Diff_singleton)
  with pos have "int (card ((cells s - {c}) \<inter> board)) = count s - 1"
    unfolding eq n by simp
  with True f show ?thesis by (simp add: Sentence_mark_mine_def describes_def)
qed

lemma describes_mark_mine_each:
  assumes "c \<in> board"
  shows "list_all (describes board) ss \<Longrightarrow>
     \<exists>ss'. mark_mine_each c ss = Returns ss' \<and> length ss' = length ss \<and> list_all (describes board) ss'"
proof (induction ss)
  case Nil
  show ?case by simp
next
  case (Cons s ss)
  from Cons.prems have s: "describes board s" and ss: "list_all (describes board) ss" by simp_all
  from describes_mark_mine [OF s assms] obtain s' where 1: "Sentence_mark_mine c s = Returns s'"
    and 2: "describes board s'" by blast
  from Cons.IH [OF ss] obtain ss' where 3: "mark_mine_each c ss = Returns ss'"
    and 4: "length ss' = length ss" and 5: "list_all (describes board) ss'" by blast
  from 1 2 3 4 5 show ?case by simp
qed

lemma agrees_mark_mine:
  assumes "agrees board st" and "c \<in> board"
  shows "\<exists>st'. mark_mine c st = Returns st' \<and> agrees board st'
           \<and> length (knowledge st') = length (knowledge st)"
proof -
  from assms(1) have "list_all (describes board) (knowledge st)" by (simp add: agrees_def)
  from describes_mark_mine_each [OF assms(2) this] obtain ks
    where "mark_mine_each c (knowledge st) = Returns ks" and "length ks = length (knowledge st)"
      and "list_all (describes board) ks" by blast
  with assms show ?thesis by (simp add: mark_mine_def agrees_def)
qed

lemma agrees_mark_safe:
  assumes "agrees board st" and "c \<notin> board"
  shows "agrees board (mark_safe c st) \<and> length (knowledge (mark_safe c st)) = length (knowledge st)"
  using assms by (auto simp: agrees_def mark_safe_def list_all_iff describes_mark_safe)

lemma agrees_mark_mines:
  "set cs \<subseteq> board \<Longrightarrow> agrees board st \<Longrightarrow>
   \<exists>st'. mark_mines cs st = Returns st' \<and> agrees board st'
         \<and> length (knowledge st') = length (knowledge st)"
proof (induction cs arbitrary: st)
  case Nil
  then show ?case by simp
next
  case (Cons c cs)
  from Cons.prems have c: "c \<in> board" and cs: "set cs \<subseteq> board" by simp_all
  from agrees_mark_mine [OF Cons.prems(2) c] obtain st1 where 1: "mark_mine c st = Returns st1"
    and 2: "agrees board st1" and 3: "length (knowledge st1) = length (knowledge st)" by blast
  from Cons.IH [OF cs 2] obtain st' where "mark_mines cs st1 = Returns st'" and "agrees board st'"
    and "length (knowledge st') = length (knowledge st1)" by blast
  with 1 3 show ?case by simp
qed

lemma agrees_mark_safes:
  "set cs \<inter> board = {} \<Longrightarrow> agrees board st \<Longrightarrow>
   agrees board (mark_safes cs st) \<and> length (knowledge (mark_safes cs st)) = length (knowledge st)"
proof (induction cs arbitrary: st)
  case Nil
  then show ?case by simp
next
  case (Cons c cs)
  from Cons.prems have c: "c \<notin> board" and cs: "set cs \<inter> board = {}" by auto
  from agrees_mark_safe [OF Cons.prems(2) c] Cons.IH [OF cs] show ?case by simp
qed

lemma known_mines_on_board:
  assumes "describes board s"
  shows "finite (known_mines s) \<and> known_mines s \<subseteq> board"
proof (cases "int (card (cells s)) = count s")
  case False
  then show ?thesis by (simp add: known_mines_def)
next
  case True
  from assms have f: "finite (cells s)" and n: "count s = int (card (cells s \<inter> board))"
    by (simp_all add: describes_def)
  from True n have "card (cells s \<inter> board) = card (cells s)" by simp
  with f have "cells s \<inter> board = cells s" by (intro card_subset_eq) auto
  then have "cells s \<subseteq> board" by auto
  with f True show ?thesis by (simp add: known_mines_def)
qed

lemma known_safes_off_board:
  assumes "describes board s"
  shows "finite (known_safes s) \<and> known_safes s \<inter> board = {}"
  using assms by (auto simp: known_safes_def describes_def)

lemma agrees_conclude_at:
  assumes "enumerates iter" and "agrees board st" and "i < length (knowledge st)"
  shows "\<exists>st'. conclude_at iter i st = Returns st' \<and> agrees board st'
           \<and> length (knowledge st') = length (knowledge st)"
proof -
  from assms(2,3) have "describes board (knowledge st ! i)"
    by (simp add: agrees_def list_all_length)
  from known_mines_on_board [OF this] assms(1)
  have "set (iter (known_mines (knowledge st ! i))) \<subseteq> board" by (simp add: enumerates_def)
  from agrees_mark_mines [OF this assms(2)] obtain st1
    where 1: "mark_mines (iter (known_mines (knowledge st ! i))) st = Returns st1"
      and 2: "agrees board st1" and 3: "length (knowledge st1) = length (knowledge st)" by blast
  from 2 3 assms(3) have "describes board (knowledge st1 ! i)"
    by (simp add: agrees_def list_all_length)
  from known_safes_off_board [OF this] assms(1)
  have "set (iter (known_safes (knowledge st1 ! i))) \<inter> board = {}" by (simp add: enumerates_def)
  from agrees_mark_safes [OF this 2] 1 3 show ?thesis by (simp add: conclude_at_def)
qed

lemma agrees_conclude_each:
  assumes "enumerates iter"
  shows "agrees board st \<Longrightarrow> \<forall>i \<in> set is. i < length (knowledge st) \<Longrightarrow>
     \<exists>st'. conclude_each iter is st = Returns st' \<and> agrees board st'
           \<and> length (knowledge st') = length (knowledge st)"
proof (induction "is" arbitrary: st)
  case Nil
  then show ?case by simp
next
  case (Cons i "is")
  from Cons.prems(2) have i: "i < length (knowledge st)" by simp
  from agrees_conclude_at [OF assms Cons.prems(1) i] obtain st1
    where 1: "conclude_at iter i st = Returns st1" and 2: "agrees board st1"
      and 3: "length (knowledge st1) = length (knowledge st)" by blast
  from Cons.prems(2) 3 have "\<forall>i \<in> set is. i < length (knowledge st1)" by simp
  from Cons.IH [OF 2 this] 1 3 show ?case by auto
qed

lemma agrees_observe:
  assumes "agrees board st" and "cell \<notin> board"
  shows "agrees board (observe st cell (nearby_mines board (height st) (width st) cell))"
proof -
  let ?st1 = "st\<lparr>moves_made := insert cell (moves_made st)\<rparr>"
  have 1: "agrees board ?st1" using assms(1) by (simp add: agrees_def)
  from agrees_mark_safe [OF 1 assms(2)] have 2: "agrees board (mark_safe cell ?st1)" by simp
  have n: "neighbors (mark_safe cell ?st1) cell = neighbors st cell" by (simp add: neighbors_eq mark_safe_def)
  have "describes board (Sentence (neighbors st cell) (nearby_mines board (height st) (width st) cell))"
    by (simp add: describes_def Sentence_def finite_neighbors nearby_mines_card)
  with 2 n show ?thesis by (simp add: observe_def Let_def agrees_def)
qed

lemma describes_cleanup:
  "list_all (describes board) kb \<Longrightarrow> list_all (describes board) (cleanup kb)"
  using cleanup_retained by (auto simp: list_all_iff)

lemma describes_difference:
  assumes "describes board s1" and "describes board s2" and "cells s1 \<subseteq> cells s2"
  shows "describes board (Sentence (cells s2 - cells s1) (count s2 - count s1))"
proof -
  from assms(1,2) have f1: "finite (cells s1)" and f2: "finite (cells s2)"
    and n1: "count s1 = int (card (cells s1 \<inter> board))"
    and n2: "count s2 = int (card (cells s2 \<inter> board))"
    by (simp_all add: describes_def)
  have eq: "(cells s2 - cells s1) \<inter> board = (cells s2 \<inter> board) - (cells s1 \<inter> board)" by auto
  have sub: "cells s1 \<inter> board \<subseteq> cells s2 \<inter> board" using assms(3) by auto
  have "card ((cells s2 \<inter> board) - (cells s1 \<inter> board))
          = card (cells s2 \<inter> board) - card (cells s1 \<inter> board)"
    using f1 sub by (intro card_Diff_subset) auto
  moreover have "card (cells s1 \<inter> board) \<le> card (cells s2 \<inter> board)"
    using f2 sub by (intro card_mono) auto
  ultimately have "int (card ((cells s2 - cells s1) \<inter> board)) = count s2 - count s1"
    unfolding eq n1 n2 by simp
  with f2 show ?thesis by (simp add: describes_def Sentence_def)
qed

lemma describes_infer_pair:
  assumes "list_all (describes board) kb" and "s1 \<in> set kb" and "s2 \<in> set kb"
  shows "list_all (describes board) (infer_pair kb s1 s2)"
proof -
  from assms have 1: "describes board s1" and 2: "describes board s2"
    by (simp_all add: list_all_iff)
  show ?thesis
  proof (cases "cells s1 \<subseteq> cells s2")
    case True
    from describes_difference [OF 1 2 True] assms(1) show ?thesis
      by (simp add: infer_pair_def Let_def)
  next
    case False
    with assms(1) show ?thesis by (simp add: infer_pair_def)
  qed
qed

lemma describes_infer_loop:
  assumes "infer_loop kb0 i0 j0 = Some r"
  shows "list_all (describes board) kb0 \<longrightarrow> list_all (describes board) r"
proof (rule infer_loop.raw_induct
    [where P = "\<lambda>kb i j r. list_all (describes board) kb \<longrightarrow> list_all (describes board) r",
     OF _ assms])
  fix loop :: "sentence list \<Rightarrow> nat \<Rightarrow> nat \<Rightarrow> sentence list option" and kb i j r
  assume IH: "\<And>kb i j r. loop kb i j = Some r \<Longrightarrow>
                list_all (describes board) kb \<longrightarrow> list_all (describes board) r"
  assume body: "(if i < length kb
      then if j < length kb then loop (infer_pair kb (kb ! i) (kb ! j)) i (j + 1)
           else loop kb (i + 1) 0
      else Some kb) = Some r"
  show "list_all (describes board) kb \<longrightarrow> list_all (describes board) r"
  proof (cases "i < length kb")
    case False
    with body show ?thesis by simp
  next
    case i: True
    show ?thesis
    proof (cases "j < length kb")
      case True
      with i body have "loop (infer_pair kb (kb ! i) (kb ! j)) i (j + 1) = Some r"
        by simp
      from IH [OF this] show ?thesis
        using describes_infer_pair [of board kb "kb ! i" "kb ! j"] i True by simp
    next
      case False
      with i body have "loop kb (i + 1) 0 = Some r" by simp
      from IH [OF this] show ?thesis .
    qed
  qed
qed

lemma agrees_inference:
  assumes "enumerates iter" and "agrees board st"
  shows "\<exists>st'. inference iter st = Some (Returns st') \<and> agrees board st'"
proof -
  have "\<forall>i \<in> set [0 ..< length (knowledge st)]. i < length (knowledge st)" by simp
  from agrees_conclude_each [OF assms this] obtain st4
    where 4: "conclude iter st = Returns st4" and a4: "agrees board st4"
    by (auto simp: conclude_def)
  let ?kb = "cleanup (knowledge st4)"
  from a4 have d: "list_all (describes board) ?kb"
    by (simp add: agrees_def describes_cleanup)
  let ?X = "\<Union> (cells ` set ?kb)"
  let ?M = "Max (insert 0 (count ` set ?kb))"
  have "finite ?X" using d by (auto simp: list_all_iff describes_def)
  moreover have "\<forall>s \<in> set ?kb. cells s \<subseteq> ?X \<and> 0 \<le> count s \<and> count s \<le> ?M"
    using cleanup_retained by auto
  ultimately obtain r where r: "infer_loop ?kb 0 0 = Some r"
    using infer_loop_terminates by blast
  from describes_infer_loop [OF r] d have "list_all (describes board) r" by simp
  with a4 have "agrees board (st4\<lparr>knowledge := r\<rparr>)" by (simp add: agrees_def)
  with 4 r show ?thesis by (simp add: inference_def)
qed

lemma agrees_add_knowledge:
  assumes "enumerates iter" and "agrees board st" and "cell \<notin> board"
  shows "\<exists>st'. add_knowledge iter st cell (nearby_mines board (height st) (width st) cell)
                 = Some (Returns st') \<and> agrees board st'"
  unfolding add_knowledge_def
  using agrees_inference [OF assms(1) agrees_observe [OF assms(2,3)]] .

lemma plays_agrees: "plays board st \<Longrightarrow> agrees board st"
proof (induction rule: plays.induct)
  case (fresh h w)
  show ?case by (simp add: agrees_def MinesweeperAI_def)
next
  case (flagged st c st')
  from agrees_mark_mine [OF flagged.IH flagged.hyps(2)] flagged.hyps(3) show ?case by simp
next
  case (cleared st c)
  from agrees_mark_safe [OF cleared.IH cleared.hyps(2)] show ?case by simp
next
  case (revealed st iter cell st')
  from agrees_add_knowledge [OF revealed.hyps(2) revealed.IH revealed.hyps(3)] revealed.hyps(4)
  show ?case by simp
qed

text \<open>
  In play that agrees with a board no call raises, and the loops of step 5 stop.
\<close>

lemma plays_never_raises:
  assumes "plays board st" and "enumerates iter"
  shows "(cell \<notin> board \<longrightarrow>
           (\<exists>st'. add_knowledge iter st cell (nearby_mines board (height st) (width st) cell)
                    = Some (Returns st') \<and> plays board st'))
     \<and> (c \<in> board \<longrightarrow> (\<exists>st'. mark_mine c st = Returns st' \<and> plays board st'))"
proof (intro conjI impI)
  assume cell: "cell \<notin> board"
  from agrees_add_knowledge [OF assms(2) plays_agrees [OF assms(1)] cell] obtain st'
    where r: "add_knowledge iter st cell (nearby_mines board (height st) (width st) cell)
                = Some (Returns st')" by blast
  from plays.revealed [OF assms(1,2) cell r] r
  show "\<exists>st'. add_knowledge iter st cell (nearby_mines board (height st) (width st) cell)
                = Some (Returns st') \<and> plays board st'" by blast
next
  assume c: "c \<in> board"
  from agrees_mark_mine [OF plays_agrees [OF assms(1)] c] obtain st'
    where r: "mark_mine c st = Returns st'" by blast
  from plays.flagged [OF assms(1) c r] r
  show "\<exists>st'. mark_mine c st = Returns st' \<and> plays board st'" by blast
qed

text \<open>
  Claim C4, as amended. On an object whose calls all agree with one board, after every
  public call every sentence of the knowledge base has a count of at least 0 and at most the
  number of its cells, and every such call returns. On every object on which all public
  calls so far have returned, the
  counts are at least 0. The subset rule adds the difference of two sentences exactly when
  the sentences differ, the cells of the first are among the cells of the second, the
  difference has a cell, its count is at least 0 and no equal sentence is present: it does
  not compare the count with the number of cells.
\<close>

theorem knowledge_counts_in_range:
  "(plays board st \<longrightarrow>
      (\<forall>s \<in> set (knowledge st). 0 \<le> count s \<and> count s \<le> int (card (cells s))))
   \<and> (plays board st \<and> enumerates iter \<and> cell \<notin> board \<longrightarrow>
        (\<exists>st'. add_knowledge iter st cell (nearby_mines board (height st) (width st) cell)
                 = Some (Returns st') \<and> plays board st'))
   \<and> (plays board st \<and> c \<in> board \<longrightarrow> (\<exists>st'. mark_mine c st = Returns st' \<and> plays board st'))
   \<and> (reachable st \<longrightarrow> (\<forall>s \<in> set (knowledge st). 0 \<le> count s))
   \<and> infer_pair kb sentence1 sentence2 =
       (if sentence1 \<noteq> sentence2 \<and> cells sentence1 \<subseteq> cells sentence2
           \<and> cells sentence2 - cells sentence1 \<noteq> {} \<and> 0 \<le> count sentence2 - count sentence1
           \<and> Sentence (cells sentence2 - cells sentence1) (count sentence2 - count sentence1) \<notin> set kb
        then kb @ [Sentence (cells sentence2 - cells sentence1) (count sentence2 - count sentence1)]
        else kb)"
proof (intro conjI impI)
  assume "plays board st"
  then have "list_all (describes board) (knowledge st)"
    using plays_agrees by (simp add: agrees_def)
  then show "\<forall>s \<in> set (knowledge st). 0 \<le> count s \<and> count s \<le> int (card (cells s))"
    using describes_bounds by (auto simp: list_all_iff)
next
  assume "plays board st \<and> enumerates iter \<and> cell \<notin> board"
  then show "\<exists>st'. add_knowledge iter st cell (nearby_mines board (height st) (width st) cell)
                 = Some (Returns st') \<and> plays board st'"
    using plays_never_raises by blast
next
  assume "plays board st \<and> c \<in> board"
  then show "\<exists>st'. mark_mine c st = Returns st' \<and> plays board st'"
    using plays_never_raises [OF _ enumerates_sorted_list_of_set] by blast
next
  assume "reachable st"
  then show "\<forall>s \<in> set (knowledge st). 0 \<le> count s"
    using reachable_count_nonnegative by blast
next
  show "infer_pair kb sentence1 sentence2 =
       (if sentence1 \<noteq> sentence2 \<and> cells sentence1 \<subseteq> cells sentence2
           \<and> cells sentence2 - cells sentence1 \<noteq> {} \<and> 0 \<le> count sentence2 - count sentence1
           \<and> Sentence (cells sentence2 - cells sentence1) (count sentence2 - count sentence1) \<notin> set kb
        then kb @ [Sentence (cells sentence2 - cells sentence1) (count sentence2 - count sentence1)]
        else kb)"
    by (simp add: infer_pair_def Let_def)
qed

theorem knowledge_counts_in_range_witness:
  "plays {(1, 0)} \<lparr>height = 3, width = 3, moves_made = {(0, 0)}, mines = {}, safes = {(0, 0)},
          knowledge = [\<lparr>cells = {(0, 1), (1, 0), (1, 1)}, count = 1\<rparr>]\<rparr>
   \<and> reachable \<lparr>height = 3, width = 3, moves_made = {(0, 0)}, mines = {}, safes = {(0, 0)},
          knowledge = [\<lparr>cells = {(0, 1), (1, 0), (1, 1)}, count = 1\<rparr>]\<rparr>
   \<and> knowledge \<lparr>height = 3, width = 3, moves_made = {(0, 0)}, mines = {}, safes = {(0, 0)},
          knowledge = [\<lparr>cells = {(0, 1), (1, 0), (1, 1)}, count = 1\<rparr>]\<rparr>
       = [\<lparr>cells = {(0, 1), (1, 0), (1, 1)}, count = 1\<rparr>]
   \<and> 0 \<le> count \<lparr>cells = {(0, 1), (1, 0), (1, 1)}, count = 1\<rparr>
   \<and> count \<lparr>cells = {(0, 1), (1, 0), (1, 1)}, count = 1\<rparr>
       \<le> int (card (cells \<lparr>cells = {(0, 1), (1, 0), (1, 1)}, count = 1\<rparr>))
   \<and> infer_pair [\<lparr>cells = {(1, 1), (1, 2)}, count = 1\<rparr>, \<lparr>cells = {(1, 1), (1, 2), (1, 3)}, count = 2\<rparr>]
        \<lparr>cells = {(1, 1), (1, 2)}, count = 1\<rparr> \<lparr>cells = {(1, 1), (1, 2), (1, 3)}, count = 2\<rparr>
      = [\<lparr>cells = {(1, 1), (1, 2)}, count = 1\<rparr>, \<lparr>cells = {(1, 1), (1, 2), (1, 3)}, count = 2\<rparr>,
         \<lparr>cells = {(1, 3)}, count = 1\<rparr>]"
proof -
  have n: "nearby_mines {(1, 0)} (height (MinesweeperAI 3 3)) (width (MinesweeperAI 3 3)) (0, 0) = 1"
    by code_simp
  have a: "add_knowledge sorted_list_of_set (MinesweeperAI 3 3) (0, 0) 1
     = Some (Returns \<lparr>height = 3, width = 3, moves_made = {(0, 0)}, mines = {}, safes = {(0, 0)},
          knowledge = [\<lparr>cells = {(0, 1), (1, 0), (1, 1)}, count = 1\<rparr>]\<rparr>)"
    by code_simp
  have c: "(0, 0) \<notin> {(1, 0) :: cell}" by simp
  have p: "plays {(1, 0)} \<lparr>height = 3, width = 3, moves_made = {(0, 0)}, mines = {}, safes = {(0, 0)},
          knowledge = [\<lparr>cells = {(0, 1), (1, 0), (1, 1)}, count = 1\<rparr>]\<rparr>"
    using plays.revealed [OF plays.fresh enumerates_sorted_list_of_set c, of 3 3] a
    unfolding n by simp
  have r: "reachable \<lparr>height = 3, width = 3, moves_made = {(0, 0)}, mines = {}, safes = {(0, 0)},
          knowledge = [\<lparr>cells = {(0, 1), (1, 0), (1, 1)}, count = 1\<rparr>]\<rparr>"
    using reachable.added_knowledge [OF reachable.fresh enumerates_sorted_list_of_set a] .
  have i: "infer_pair [\<lparr>cells = {(1, 1), (1, 2)}, count = 1\<rparr>, \<lparr>cells = {(1, 1), (1, 2), (1, 3)}, count = 2\<rparr>]
        \<lparr>cells = {(1, 1), (1, 2)}, count = 1\<rparr> \<lparr>cells = {(1, 1), (1, 2), (1, 3)}, count = 2\<rparr>
      = [\<lparr>cells = {(1, 1), (1, 2)}, count = 1\<rparr>, \<lparr>cells = {(1, 1), (1, 2), (1, 3)}, count = 2\<rparr>,
         \<lparr>cells = {(1, 3)}, count = 1\<rparr>]"
    by code_simp
  from knowledge_counts_in_range [where board = "{(1, 0)}"
      and st = "\<lparr>height = 3, width = 3, moves_made = {(0, 0)}, mines = {}, safes = {(0, 0)},
          knowledge = [\<lparr>cells = {(0, 1), (1, 0), (1, 1)}, count = 1\<rparr>]\<rparr>"
      and kb = "[\<lparr>cells = {(1, 1), (1, 2)}, count = 1\<rparr>, \<lparr>cells = {(1, 1), (1, 2), (1, 3)}, count = 2\<rparr>]"
      and ?sentence1.0 = "\<lparr>cells = {(1, 1), (1, 2)}, count = 1\<rparr>"
      and ?sentence2.0 = "\<lparr>cells = {(1, 1), (1, 2), (1, 3)}, count = 2\<rparr>"
      and iter = sorted_list_of_set and cell = "(0, 2)" and c = "(1, 0)"]
    p r i
  show ?thesis by simp
qed

text \<open>
  The second part of claim C4 as stated fails: the subset rule adds a sentence whose count
  exceeds the number of its cells. That takes observations that agree with no board: on a
  3 by 3 board (0, 1) with count 1 and (1, 1) with count 6, each within the number of
  neighbours, make the rule add a sentence of four cells with count 5.
\<close>

theorem count_above_cells_counterexample:
  "add_knowledge sorted_list_of_set (MinesweeperAI 3 3) (0, 1) 1
     = Some (Returns \<lparr>height = 3, width = 3, moves_made = {(0, 1)}, mines = {}, safes = {(0, 1)},
          knowledge = [\<lparr>cells = {(0, 0), (0, 2), (1, 0), (1, 1), (1, 2)}, count = 1\<rparr>]\<rparr>)
   \<and> add_knowledge sorted_list_of_set
        \<lparr>height = 3, width = 3, moves_made = {(0, 1)}, mines = {}, safes = {(0, 1)},
          knowledge = [\<lparr>cells = {(0, 0), (0, 2), (1, 0), (1, 1), (1, 2)}, count = 1\<rparr>]\<rparr> (1, 1) 6
     = Some (Returns \<lparr>height = 3, width = 3, moves_made = {(0, 1), (1, 1)}, mines = {},
          safes = {(0, 1), (1, 1)},
          knowledge = [\<lparr>cells = {(0, 0), (0, 2), (1, 0), (1, 2)}, count = 1\<rparr>,
                       \<lparr>cells = {(0, 0), (0, 1), (0, 2), (1, 0), (1, 2), (2, 0), (2, 1), (2, 2)}, count = 6\<rparr>,
                       \<lparr>cells = {(0, 1), (2, 0), (2, 1), (2, 2)}, count = 5\<rparr>]\<rparr>)
   \<and> \<not> count \<lparr>cells = {(0, 1), (2, 0), (2, 1), (2, 2)}, count = 5\<rparr>
         \<le> int (card (cells \<lparr>cells = {(0, 1), (2, 0), (2, 1), (2, 2)}, count = 5\<rparr>))"
  by code_simp

section \<open>What an observation adds to the knowledge base\<close>

lemma distinct_dedupe: "distinct acc \<Longrightarrow> distinct (dedupe acc xs)"
  by (induction xs arbitrary: acc) auto

lemma distinct_cleanup: "distinct (cleanup kb)"
  by (simp add: cleanup_def distinct_dedupe)

lemma distinct_infer_pair: "distinct kb \<Longrightarrow> distinct (infer_pair kb s1 s2)"
  using infer_pair_cases [of kb s1 s2] by auto

lemma distinct_infer_loop:
  assumes "infer_loop kb0 i0 j0 = Some r"
  shows "distinct kb0 \<longrightarrow> distinct r"
proof (rule infer_loop.raw_induct
    [where P = "\<lambda>kb i j r. distinct kb \<longrightarrow> distinct r", OF _ assms])
  fix loop :: "sentence list \<Rightarrow> nat \<Rightarrow> nat \<Rightarrow> sentence list option" and kb i j r
  assume IH: "\<And>kb i j r. loop kb i j = Some r \<Longrightarrow> distinct kb \<longrightarrow> distinct r"
  assume body: "(if i < length kb
      then if j < length kb then loop (infer_pair kb (kb ! i) (kb ! j)) i (j + 1)
           else loop kb (i + 1) 0
      else Some kb) = Some r"
  show "distinct kb \<longrightarrow> distinct r"
  proof (cases "i < length kb")
    case False
    with body show ?thesis by simp
  next
    case i: True
    show ?thesis
    proof (cases "j < length kb")
      case True
      with i body have "loop (infer_pair kb (kb ! i) (kb ! j)) i (j + 1) = Some r"
        by simp
      from IH [OF this] show ?thesis by (simp add: distinct_infer_pair)
    next
      case False
      with i body have "loop kb (i + 1) 0 = Some r" by simp
      from IH [OF this] show ?thesis .
    qed
  qed
qed

lemma inference_Returns_distinct:
  assumes "inference iter st = Some (Returns st')"
  shows "distinct (knowledge st')"
proof -
  from assms obtain st4 kb where l: "infer_loop (cleanup (knowledge st4)) 0 0 = Some kb"
    and st': "st' = st4\<lparr>knowledge := kb\<rparr>"
    by (auto simp: inference_def split: outcome.splits option.splits)
  from distinct_infer_loop [OF l] distinct_cleanup st' show ?thesis by simp
qed

text \<open>
  Claim C1, as amended. The sentence that step 3 of \<^verbatim>\<open>add_knowledge(cell, count)\<close> builds has
  as cells the whole in-bounds Chebyshev neighbourhood of the cell, the cell itself excluded
  and nothing else: cells already in \<^verbatim>\<open>mines\<close> or \<^verbatim>\<open>safes\<close> stay in it. Its count is the count
  supplied. It is appended to the knowledge base in every case, after the cell has been
  removed from the sentences already there. Only the clean-up before step 5 removes the
  sentences without cells and all but the first of equal sentences: when the call returns,
  no sentence of the knowledge base is without cells and no two are equal.
\<close>

theorem observe_appends_raw_neighborhood:
  "knowledge (observe st cell n) =
     map (Sentence_mark_safe cell) (knowledge st) @
     [\<lparr>cells = {(i, j). \<bar>i - fst cell\<bar> \<le> 1 \<and> \<bar>j - snd cell\<bar> \<le> 1 \<and> (i, j) \<noteq> cell
                  \<and> 0 \<le> i \<and> i < height st \<and> 0 \<le> j \<and> j < width st},
       count = n\<rparr>]
   \<and> (add_knowledge iter st cell n = Some (Returns st') \<longrightarrow>
        (\<forall>s \<in> set (knowledge st'). cells s \<noteq> {}) \<and> distinct (knowledge st'))"
proof -
  have "knowledge (observe st cell n) =
     map (Sentence_mark_safe cell) (knowledge st) @
     [\<lparr>cells = {(i, j). \<bar>i - fst cell\<bar> \<le> 1 \<and> \<bar>j - snd cell\<bar> \<le> 1 \<and> (i, j) \<noteq> cell
                  \<and> 0 \<le> i \<and> i < height st \<and> 0 \<le> j \<and> j < width st},
       count = n\<rparr>]"
    by (simp add: observe_def Let_def Sentence_def mark_safe_def neighbors_eq)
  moreover have "add_knowledge iter st cell n = Some (Returns st') \<longrightarrow>
        (\<forall>s \<in> set (knowledge st'). cells s \<noteq> {}) \<and> distinct (knowledge st')"
    using inference_Returns_count inference_Returns_distinct unfolding add_knowledge_def by blast
  ultimately show ?thesis by simp
qed

theorem observe_appends_raw_neighborhood_witness:
  "mark_mine (0, 1) (MinesweeperAI 2 2)
     = Returns \<lparr>height = 2, width = 2, moves_made = {}, mines = {(0, 1)}, safes = {}, knowledge = []\<rparr>
   \<and> knowledge (observe \<lparr>height = 2, width = 2, moves_made = {}, mines = {(0, 1)}, safes = {}, knowledge = []\<rparr> (0, 0) 1)
       = [\<lparr>cells = {(0, 1), (1, 0), (1, 1)}, count = 1\<rparr>]
   \<and> add_knowledge sorted_list_of_set
        \<lparr>height = 2, width = 2, moves_made = {}, mines = {(0, 1)}, safes = {}, knowledge = []\<rparr> (0, 0) 1
     = Some (Returns \<lparr>height = 2, width = 2, moves_made = {(0, 0)}, mines = {(0, 1)}, safes = {(0, 0)},
          knowledge = [\<lparr>cells = {(0, 1), (1, 0), (1, 1)}, count = 1\<rparr>]\<rparr>)
   \<and> add_knowledge sorted_list_of_set (MinesweeperAI 2 2) (0, 0) 1
     = Some (Returns \<lparr>height = 2, width = 2, moves_made = {(0, 0)}, mines = {}, safes = {(0, 0)},
          knowledge = [\<lparr>cells = {(0, 1), (1, 0), (1, 1)}, count = 1\<rparr>]\<rparr>)
   \<and> (0, 0) \<in> safes \<lparr>height = 2, width = 2, moves_made = {(0, 0)}, mines = {}, safes = {(0, 0)},
          knowledge = [\<lparr>cells = {(0, 1), (1, 0), (1, 1)}, count = 1\<rparr>]\<rparr>
   \<and> knowledge (observe \<lparr>height = 2, width = 2, moves_made = {(0, 0)}, mines = {}, safes = {(0, 0)},
          knowledge = [\<lparr>cells = {(0, 1), (1, 0), (1, 1)}, count = 1\<rparr>]\<rparr> (0, 1) 1)
       = [\<lparr>cells = {(1, 0), (1, 1)}, count = 1\<rparr>, \<lparr>cells = {(0, 0), (1, 0), (1, 1)}, count = 1\<rparr>]
   \<and> add_knowledge sorted_list_of_set
        \<lparr>height = 2, width = 2, moves_made = {(0, 0)}, mines = {}, safes = {(0, 0)},
          knowledge = [\<lparr>cells = {(0, 1), (1, 0), (1, 1)}, count = 1\<rparr>]\<rparr> (0, 1) 1
     = Some (Returns \<lparr>height = 2, width = 2, moves_made = {(0, 0), (0, 1)}, mines = {},
          safes = {(0, 0), (0, 1)},
          knowledge = [\<lparr>cells = {(1, 0), (1, 1)}, count = 1\<rparr>,
                       \<lparr>cells = {(0, 0), (1, 0), (1, 1)}, count = 1\<rparr>,
                       \<lparr>cells = {(0, 0)}, count = 0\<rparr>]\<rparr>)
   \<and> list_all (\<lambda>s. cells s \<noteq> {})
        [\<lparr>cells = {(1, 0), (1, 1)}, count = 1\<rparr>, \<lparr>cells = {(0, 0), (1, 0), (1, 1)}, count = 1\<rparr>,
         \<lparr>cells = {(0, 0)}, count = 0\<rparr>]
   \<and> distinct
        [\<lparr>cells = {(1, 0), (1, 1)}, count = 1\<rparr>, \<lparr>cells = {(0, 0), (1, 0), (1, 1)}, count = 1\<rparr>,
         \<lparr>cells = {(0, 0)}, count = (0::int)\<rparr>]
   \<and> knowledge (observe \<lparr>height = 2, width = 2, moves_made = {(0, 0)}, mines = {}, safes = {(0, 0)},
          knowledge = [\<lparr>cells = {(0, 1), (1, 0), (1, 1)}, count = 1\<rparr>]\<rparr> (0, 0) 1)
       = [\<lparr>cells = {(0, 1), (1, 0), (1, 1)}, count = 1\<rparr>, \<lparr>cells = {(0, 1), (1, 0), (1, 1)}, count = 1\<rparr>]
   \<and> add_knowledge sorted_list_of_set
        \<lparr>height = 2, width = 2, moves_made = {(0, 0)}, mines = {}, safes = {(0, 0)},
          knowledge = [\<lparr>cells = {(0, 1), (1, 0), (1, 1)}, count = 1\<rparr>]\<rparr> (0, 0) 1
     = Some (Returns \<lparr>height = 2, width = 2, moves_made = {(0, 0)}, mines = {}, safes = {(0, 0)},
          knowledge = [\<lparr>cells = {(0, 1), (1, 0), (1, 1)}, count = 1\<rparr>]\<rparr>)"
proof -
  let ?st = "\<lparr>height = 2, width = 2, moves_made = {(0, 0)}, mines = {}, safes = {(0, 0)},
          knowledge = [\<lparr>cells = {(0, 1), (1, 0), (1, 1)}, count = 1\<rparr>]\<rparr>"
  let ?st1 = "\<lparr>height = 2, width = 2, moves_made = {(0, 0), (0, 1)}, mines = {},
          safes = {(0, 0), (0, 1)},
          knowledge = [\<lparr>cells = {(1, 0), (1, 1)}, count = 1\<rparr>,
                       \<lparr>cells = {(0, 0), (1, 0), (1, 1)}, count = 1\<rparr>,
                       \<lparr>cells = {(0, 0)}, count = 0\<rparr>]\<rparr>"
  have a: "add_knowledge sorted_list_of_set (MinesweeperAI 2 2) (0, 0) 1 = Some (Returns ?st)"
    by code_simp
  have o1: "knowledge (observe ?st (0, 1) 1)
       = [\<lparr>cells = {(1, 0), (1, 1)}, count = 1\<rparr>, \<lparr>cells = {(0, 0), (1, 0), (1, 1)}, count = 1\<rparr>]"
    by code_simp
  have a1: "add_knowledge sorted_list_of_set ?st (0, 1) 1 = Some (Returns ?st1)"
    by code_simp
  have o2: "knowledge (observe ?st (0, 0) 1)
       = [\<lparr>cells = {(0, 1), (1, 0), (1, 1)}, count = 1\<rparr>, \<lparr>cells = {(0, 1), (1, 0), (1, 1)}, count = 1\<rparr>]"
    by code_simp
  have a2: "add_knowledge sorted_list_of_set ?st (0, 0) 1 = Some (Returns ?st)"
    by code_simp
  from observe_appends_raw_neighborhood [of ?st "(0, 1)" 1 sorted_list_of_set ?st1] a1
  have c: "(\<forall>s \<in> set (knowledge ?st1). cells s \<noteq> {}) \<and> distinct (knowledge ?st1)"
    by blast
  have k: "list_all (\<lambda>s. cells s \<noteq> {})
        [\<lparr>cells = {(1, 0), (1, 1)}, count = 1\<rparr>, \<lparr>cells = {(0, 0), (1, 0), (1, 1)}, count = 1\<rparr>,
         \<lparr>cells = {(0, 0)}, count = 0\<rparr>]"
    using c by (simp add: list_all_iff)
  have d: "distinct
        [\<lparr>cells = {(1, 0), (1, 1)}, count = 1\<rparr>, \<lparr>cells = {(0, 0), (1, 0), (1, 1)}, count = 1\<rparr>,
         \<lparr>cells = {(0, 0)}, count = (0::int)\<rparr>]"
    using c by simp
  have s: "(0, 0) \<in> safes ?st" by simp
  let ?sm = "\<lparr>height = 2, width = 2, moves_made = {}, mines = {(0, 1)}, safes = {}, knowledge = []\<rparr>"
  have m: "mark_mine (0, 1) (MinesweeperAI 2 2) = Returns ?sm"
    by code_simp
  have o3: "knowledge (observe ?sm (0, 0) 1) = [\<lparr>cells = {(0, 1), (1, 0), (1, 1)}, count = 1\<rparr>]"
    by code_simp
  have a3: "add_knowledge sorted_list_of_set ?sm (0, 0) 1
     = Some (Returns \<lparr>height = 2, width = 2, moves_made = {(0, 0)}, mines = {(0, 1)}, safes = {(0, 0)},
          knowledge = [\<lparr>cells = {(0, 1), (1, 0), (1, 1)}, count = 1\<rparr>]\<rparr>)"
    by code_simp
  from m o3 a3 a s o1 a1 k d o2 a2 show ?thesis by (intro conjI)
qed

text \<open>
  Claim C1 as stated fails. After \<^verbatim>\<open>mark_mine((0, 1))\<close> on a fresh 2 by 2 object, the sentence
  for (0, 0) and count 1 still contains (0, 1) and still has count 1. On a 1 by 1 board the
  sentence with no cells is appended. After \<^verbatim>\<open>add_knowledge((0, 0), 1)\<close> on a fresh 2 by 2
  object, the same call again appends a sentence equal to the one present.
\<close>

theorem observe_keeps_known_cells_counterexample:
  "mark_mine (0, 1) (MinesweeperAI 2 2)
     = Returns \<lparr>height = 2, width = 2, moves_made = {}, mines = {(0, 1)}, safes = {}, knowledge = []\<rparr>
   \<and> (0, 1) \<in> mines \<lparr>height = 2, width = 2, moves_made = {}, mines = {(0, 1)}, safes = {}, knowledge = []\<rparr>
   \<and> knowledge (observe \<lparr>height = 2, width = 2, moves_made = {}, mines = {(0, 1)}, safes = {}, knowledge = []\<rparr> (0, 0) 1)
       = [\<lparr>cells = {(0, 1), (1, 0), (1, 1)}, count = 1\<rparr>]
   \<and> knowledge (observe (MinesweeperAI 1 1) (0, 0) 0) = [\<lparr>cells = {}, count = 0\<rparr>]
   \<and> add_knowledge sorted_list_of_set (MinesweeperAI 2 2) (0, 0) 1
     = Some (Returns \<lparr>height = 2, width = 2, moves_made = {(0, 0)}, mines = {}, safes = {(0, 0)},
          knowledge = [\<lparr>cells = {(0, 1), (1, 0), (1, 1)}, count = 1\<rparr>]\<rparr>)
   \<and> knowledge (observe \<lparr>height = 2, width = 2, moves_made = {(0, 0)}, mines = {}, safes = {(0, 0)},
                          knowledge = [\<lparr>cells = {(0, 1), (1, 0), (1, 1)}, count = 1\<rparr>]\<rparr> (0, 0) 1)
       = [\<lparr>cells = {(0, 1), (1, 0), (1, 1)}, count = 1\<rparr>, \<lparr>cells = {(0, 1), (1, 0), (1, 1)}, count = 1\<rparr>]"
  by code_simp

section \<open>An observation with count 0\<close>

lemma empty_zero_returns:
  assumes "enumerates iter" and "knowledge st = []"
  shows "\<exists>st'. add_knowledge iter st cell 0 = Some (Returns st')"
proof -
  from assms(2) have "\<forall>s \<in> set (knowledge st). finite (cells s)" by simp
  then obtain r where r: "add_knowledge iter st cell 0 = Some r"
    using add_knowledge_terminates by blast
  let ?st3 = "observe st cell 0"
  have kb: "knowledge ?st3 = [Sentence (neighbors st cell) 0]"
    using assms(2) by (simp add: observe_def Let_def mark_safe_def neighbors_eq)
  have "known_mines (Sentence (neighbors st cell) 0) = {}"
    by (simp add: known_mines_def Sentence_def finite_neighbors)
  then have "mark_mines (iter (known_mines (knowledge ?st3 ! 0))) ?st3 = Returns ?st3"
    using kb enumerates_empty [OF assms(1)] by simp
  then have "\<exists>st4. conclude iter ?st3 = Returns st4"
    using kb by (simp add: conclude_def conclude_at_def)
  with r show ?thesis
    by (auto simp: add_knowledge_def inference_def split: option.splits)
qed

text \<open>
  Claim C7, as amended. On an object with at least two rows and two columns whose calls so
  far agree with one board, on which (0, 0) is not a mine and has no mine next to it,
  \<^verbatim>\<open>add_knowledge((0, 0), 0)\<close> returns and the three neighbours (0, 1), (1, 0) and (1, 1) are
  in \<^verbatim>\<open>safes\<close>. The call also returns from every state with an empty knowledge base, and from
  every state whatever, whenever it returns the three neighbours are in \<^verbatim>\<open>safes\<close>. This
  holds for every iteration order of the sets.
\<close>

theorem corner_zero_neighbors_safe:
  assumes "enumerates iter" and "2 \<le> height st" and "2 \<le> width st"
  shows "(plays board st \<and> (0, 0) \<notin> board \<and> nearby_mines board (height st) (width st) (0, 0) = 0
            \<longrightarrow> (\<exists>st'. add_knowledge iter st (0, 0) 0 = Some (Returns st')
                        \<and> {(0, 1), (1, 0), (1, 1)} \<subseteq> safes st'))
     \<and> (knowledge st = [] \<longrightarrow> (\<exists>st'. add_knowledge iter st (0, 0) 0 = Some (Returns st')))
     \<and> (\<forall>st'. add_knowledge iter st (0, 0) 0 = Some (Returns st') \<longrightarrow>
            {(0, 1), (1, 0), (1, 1)} \<subseteq> safes st')"
proof -
  have sub: "{(0, 1), (1, 0), (1, 1)} \<subseteq> safes st'"
    if "add_knowledge iter st (0, 0) 0 = Some (Returns st')" for st'
    using zero_count_neighbors_safe [OF assms(1) that] neighbors_origin [OF assms(2,3)] by simp
  have ret: "\<exists>st'. add_knowledge iter st (0, 0) 0 = Some (Returns st')"
    if "plays board st" and "(0, 0) \<notin> board"
      and "nearby_mines board (height st) (width st) (0, 0) = 0"
    using agrees_add_knowledge [OF assms(1) plays_agrees [OF that(1)] that(2)] that(3) by auto
  show ?thesis
    using sub ret empty_zero_returns [OF assms(1)] by blast
qed

theorem corner_zero_neighbors_safe_witness:
  "enumerates sorted_list_of_set
   \<and> 2 \<le> height \<lparr>height = 3, width = 3, moves_made = {(1, 2)}, mines = {}, safes = {(1, 2)},
          knowledge = [\<lparr>cells = {(0, 1), (0, 2), (1, 1), (2, 1), (2, 2)}, count = 1\<rparr>]\<rparr>
   \<and> 2 \<le> width \<lparr>height = 3, width = 3, moves_made = {(1, 2)}, mines = {}, safes = {(1, 2)},
          knowledge = [\<lparr>cells = {(0, 1), (0, 2), (1, 1), (2, 1), (2, 2)}, count = 1\<rparr>]\<rparr>
   \<and> plays {(2, 2)} \<lparr>height = 3, width = 3, moves_made = {(1, 2)}, mines = {}, safes = {(1, 2)},
          knowledge = [\<lparr>cells = {(0, 1), (0, 2), (1, 1), (2, 1), (2, 2)}, count = 1\<rparr>]\<rparr>
   \<and> (0, 0) \<notin> {(2, 2) :: cell}
   \<and> nearby_mines {(2, 2)} 3 3 (0, 0) = 0
   \<and> add_knowledge sorted_list_of_set
        \<lparr>height = 3, width = 3, moves_made = {(1, 2)}, mines = {}, safes = {(1, 2)},
          knowledge = [\<lparr>cells = {(0, 1), (0, 2), (1, 1), (2, 1), (2, 2)}, count = 1\<rparr>]\<rparr> (0, 0) 0
       = Some (Returns \<lparr>height = 3, width = 3, moves_made = {(0, 0), (1, 2)}, mines = {},
            safes = {(0, 0), (0, 1), (1, 0), (1, 1), (1, 2)},
            knowledge = [\<lparr>cells = {(0, 2), (2, 1), (2, 2)}, count = 1\<rparr>]\<rparr>)
   \<and> {(0, 1), (1, 0), (1, 1)}
       \<subseteq> safes \<lparr>height = 3, width = 3, moves_made = {(0, 0), (1, 2)}, mines = {},
            safes = {(0, 0), (0, 1), (1, 0), (1, 1), (1, 2)},
            knowledge = [\<lparr>cells = {(0, 2), (2, 1), (2, 2)}, count = 1\<rparr>]\<rparr>"
proof -
  let ?st = "\<lparr>height = 3, width = 3, moves_made = {(1, 2)}, mines = {}, safes = {(1, 2)},
          knowledge = [\<lparr>cells = {(0, 1), (0, 2), (1, 1), (2, 1), (2, 2)}, count = 1\<rparr>]\<rparr>"
  have n1: "nearby_mines {(2, 2)} (height (MinesweeperAI 3 3)) (width (MinesweeperAI 3 3)) (1, 2) = 1"
    by code_simp
  have a1: "add_knowledge sorted_list_of_set (MinesweeperAI 3 3) (1, 2) 1 = Some (Returns ?st)"
    by code_simp
  have c1: "(1, 2) \<notin> {(2, 2) :: cell}" by simp
  have p: "plays {(2, 2)} ?st"
    using plays.revealed [OF plays.fresh enumerates_sorted_list_of_set c1, of 3 3] a1
    unfolding n1 by simp
  have h: "2 \<le> height ?st" and w: "2 \<le> width ?st" by simp_all
  have c0: "(0, 0) \<notin> {(2, 2) :: cell}" by simp
  have n0: "nearby_mines {(2, 2)} 3 3 (0, 0) = 0" by code_simp
  have a0: "add_knowledge sorted_list_of_set ?st (0, 0) 0
       = Some (Returns \<lparr>height = 3, width = 3, moves_made = {(0, 0), (1, 2)}, mines = {},
            safes = {(0, 0), (0, 1), (1, 0), (1, 1), (1, 2)},
            knowledge = [\<lparr>cells = {(0, 2), (2, 1), (2, 2)}, count = 1\<rparr>]\<rparr>)"
    by code_simp
  from corner_zero_neighbors_safe [OF enumerates_sorted_list_of_set h w, of "{(2, 2)}"]
    enumerates_sorted_list_of_set p c0 n0 a0
  show ?thesis by simp
qed

text \<open>
  Claim C7 as stated fails. After the observations (0, 0) with count 1 and (0, 2) with
  count 0 on a fresh 3 by 3 object the knowledge base holds \<open>{(1,0)} = 1\<close>. The call
  \<^verbatim>\<open>add_knowledge((0, 0), 0)\<close> then marks (1, 0) as a mine, which drives the count of the new
  sentence to -1: the call raises, and (1, 0) is not in \<^verbatim>\<open>safes\<close>.
\<close>

theorem corner_zero_raises_counterexample:
  "add_knowledge sorted_list_of_set (MinesweeperAI 3 3) (0, 0) 1
     = Some (Returns \<lparr>height = 3, width = 3, moves_made = {(0, 0)}, mines = {}, safes = {(0, 0)},
          knowledge = [\<lparr>cells = {(0, 1), (1, 0), (1, 1)}, count = 1\<rparr>]\<rparr>)
   \<and> add_knowledge sorted_list_of_set
        \<lparr>height = 3, width = 3, moves_made = {(0, 0)}, mines = {}, safes = {(0, 0)},
          knowledge = [\<lparr>cells = {(0, 1), (1, 0), (1, 1)}, count = 1\<rparr>]\<rparr> (0, 2) 0
     = Some (Returns \<lparr>height = 3, width = 3, moves_made = {(0, 0), (0, 2)}, mines = {},
          safes = {(0, 0), (0, 1), (0, 2), (1, 1), (1, 2)},
          knowledge = [\<lparr>cells = {(1, 0)}, count = 1\<rparr>]\<rparr>)
   \<and> add_knowledge sorted_list_of_set
        \<lparr>height = 3, width = 3, moves_made = {(0, 0), (0, 2)}, mines = {},
          safes = {(0, 0), (0, 1), (0, 2), (1, 1), (1, 2)},
          knowledge = [\<lparr>cells = {(1, 0)}, count = 1\<rparr>]\<rparr> (0, 0) 0
     = Some (Raises ValueError \<lparr>height = 3, width = 3, moves_made = {(0, 0), (0, 2)}, mines = {(1, 0)},
          safes = {(0, 0), (0, 1), (0, 2), (1, 1), (1, 2)},
          knowledge = [\<lparr>cells = {}, count = 0\<rparr>, \<lparr>cells = {(0, 1), (1, 1)}, count = - 1\<rparr>]\<rparr>)
   \<and> \<not> {(0, 1), (1, 0), (1, 1)}
         \<subseteq> safes \<lparr>height = 3, width = 3, moves_made = {(0, 0), (0, 2)}, mines = {(1, 0)},
          safes = {(0, 0), (0, 1), (0, 2), (1, 1), (1, 2)},
          knowledge = [\<lparr>cells = {}, count = 0\<rparr>, \<lparr>cells = {(0, 1), (1, 1)}, count = - 1\<rparr>]\<rparr>"
  by code_simp

section \<open>One inference pass for each observation\<close>

text \<open>
  Claim C2. With the sentences \<open>{(1,1),(1,2)} = 1\<close> and \<open>{(1,1),(1,2),(1,3)} = 2\<close> in the
  knowledge base, a call of \<^verbatim>\<open>add_knowledge\<close> derives \<open>{(1,3)} = 1\<close>, but it returns without
  marking (1, 3) as a mine: the marking of step 4 runs before the subset rule of step 5 and
  is not run again. The state with the two sentences is reached from a fresh 8 by 8 object
  by the observations (0, 1) with count 1 and (0, 2) with count 2 and by marking (0, 0),
  (1, 0), (0, 3) and (0, 1) safe.
\<close>

theorem subset_example_not_marked:
  "reachable \<lparr>height = 8, width = 8, moves_made = {(0, 1), (0, 2)}, mines = {},
      safes = {(0, 0), (0, 1), (0, 2), (0, 3), (1, 0)},
      knowledge = [\<lparr>cells = {(1, 1), (1, 2)}, count = 1\<rparr>,
                   \<lparr>cells = {(1, 1), (1, 2), (1, 3)}, count = 2\<rparr>]\<rparr>
   \<and> add_knowledge sorted_list_of_set
     \<lparr>height = 8, width = 8, moves_made = {(0, 1), (0, 2)}, mines = {},
      safes = {(0, 0), (0, 1), (0, 2), (0, 3), (1, 0)},
      knowledge = [\<lparr>cells = {(1, 1), (1, 2)}, count = 1\<rparr>,
                   \<lparr>cells = {(1, 1), (1, 2), (1, 3)}, count = 2\<rparr>]\<rparr> (5, 5) 1
   = Some (Returns
     \<lparr>height = 8, width = 8, moves_made = {(0, 1), (0, 2), (5, 5)}, mines = {},
      safes = {(0, 0), (0, 1), (0, 2), (0, 3), (1, 0), (5, 5)},
      knowledge = [\<lparr>cells = {(1, 1), (1, 2)}, count = 1\<rparr>,
                   \<lparr>cells = {(1, 1), (1, 2), (1, 3)}, count = 2\<rparr>,
                   \<lparr>cells = {(4, 4), (4, 5), (4, 6), (5, 4), (5, 6), (6, 4), (6, 5), (6, 6)}, count = 1\<rparr>,
                   \<lparr>cells = {(1, 3)}, count = 1\<rparr>]\<rparr>)
   \<and> (1, 3) \<notin> mines \<lparr>height = 8, width = 8, moves_made = {(0, 1), (0, 2), (5, 5)}, mines = {},
      safes = {(0, 0), (0, 1), (0, 2), (0, 3), (1, 0), (5, 5)},
      knowledge = [\<lparr>cells = {(1, 1), (1, 2)}, count = 1\<rparr>,
                   \<lparr>cells = {(1, 1), (1, 2), (1, 3)}, count = 2\<rparr>,
                   \<lparr>cells = {(4, 4), (4, 5), (4, 6), (5, 4), (5, 6), (6, 4), (6, 5), (6, 6)}, count = 1\<rparr>,
                   \<lparr>cells = {(1, 3)}, count = 1\<rparr>]\<rparr>"
proof -
  have 1: "add_knowledge sorted_list_of_set (MinesweeperAI 8 8) (0, 1) 1
     = Some (Returns \<lparr>height = 8, width = 8, moves_made = {(0, 1)}, mines = {}, safes = {(0, 1)},
          knowledge = [\<lparr>cells = {(0, 0), (0, 2), (1, 0), (1, 1), (1, 2)}, count = 1\<rparr>]\<rparr>)"
    by code_simp
  have 2: "add_knowledge sorted_list_of_set
       \<lparr>height = 8, width = 8, moves_made = {(0, 1)}, mines = {}, safes = {(0, 1)},
          knowledge = [\<lparr>cells = {(0, 0), (0, 2), (1, 0), (1, 1), (1, 2)}, count = 1\<rparr>]\<rparr> (0, 2) 2
     = Some (Returns \<lparr>height = 8, width = 8, moves_made = {(0, 1), (0, 2)}, mines = {}, safes = {(0, 1), (0, 2)},
          knowledge = [\<lparr>cells = {(0, 0), (1, 0), (1, 1), (1, 2)}, count = 1\<rparr>,
                       \<lparr>cells = {(0, 1), (0, 3), (1, 1), (1, 2), (1, 3)}, count = 2\<rparr>]\<rparr>)"
    by code_simp
  have 3: "mark_safe (0, 1) (mark_safe (0, 3) (mark_safe (1, 0) (mark_safe (0, 0)
       \<lparr>height = 8, width = 8, moves_made = {(0, 1), (0, 2)}, mines = {}, safes = {(0, 1), (0, 2)},
          knowledge = [\<lparr>cells = {(0, 0), (1, 0), (1, 1), (1, 2)}, count = 1\<rparr>,
                       \<lparr>cells = {(0, 1), (0, 3), (1, 1), (1, 2), (1, 3)}, count = 2\<rparr>]\<rparr>)))
     = \<lparr>height = 8, width = 8, moves_made = {(0, 1), (0, 2)}, mines = {},
      safes = {(0, 0), (0, 1), (0, 2), (0, 3), (1, 0)},
      knowledge = [\<lparr>cells = {(1, 1), (1, 2)}, count = 1\<rparr>,
                   \<lparr>cells = {(1, 1), (1, 2), (1, 3)}, count = 2\<rparr>]\<rparr>"
    by code_simp
  have r: "reachable \<lparr>height = 8, width = 8, moves_made = {(0, 1), (0, 2)}, mines = {},
      safes = {(0, 0), (0, 1), (0, 2), (0, 3), (1, 0)},
      knowledge = [\<lparr>cells = {(1, 1), (1, 2)}, count = 1\<rparr>,
                   \<lparr>cells = {(1, 1), (1, 2), (1, 3)}, count = 2\<rparr>]\<rparr>"
    using reachable.marked_safe [OF reachable.marked_safe [OF reachable.marked_safe [OF reachable.marked_safe
      [OF reachable.added_knowledge [OF reachable.added_knowledge
        [OF reachable.fresh enumerates_sorted_list_of_set 1] enumerates_sorted_list_of_set 2]]]],
      of "(0, 1)" "(0, 3)" "(1, 0)" "(0, 0)"]
    unfolding 3 .
  have 4: "add_knowledge sorted_list_of_set
     \<lparr>height = 8, width = 8, moves_made = {(0, 1), (0, 2)}, mines = {},
      safes = {(0, 0), (0, 1), (0, 2), (0, 3), (1, 0)},
      knowledge = [\<lparr>cells = {(1, 1), (1, 2)}, count = 1\<rparr>,
                   \<lparr>cells = {(1, 1), (1, 2), (1, 3)}, count = 2\<rparr>]\<rparr> (5, 5) 1
   = Some (Returns
     \<lparr>height = 8, width = 8, moves_made = {(0, 1), (0, 2), (5, 5)}, mines = {},
      safes = {(0, 0), (0, 1), (0, 2), (0, 3), (1, 0), (5, 5)},
      knowledge = [\<lparr>cells = {(1, 1), (1, 2)}, count = 1\<rparr>,
                   \<lparr>cells = {(1, 1), (1, 2), (1, 3)}, count = 2\<rparr>,
                   \<lparr>cells = {(4, 4), (4, 5), (4, 6), (5, 4), (5, 6), (6, 4), (6, 5), (6, 6)}, count = 1\<rparr>,
                   \<lparr>cells = {(1, 3)}, count = 1\<rparr>]\<rparr>)"
    by code_simp
  from r 4 show ?thesis by simp
qed

text \<open>
  Claim C3. After the observations (0, 0) with count 1 and (0, 2) with count 0 on a 3 by 3
  board, the knowledge base holds \<open>{(1,0)} = 1\<close> and (1, 0) is not marked. Running steps 4
  and 5 again marks (1, 0) as a mine and empties the knowledge base: the state
  \<^verbatim>\<open>add_knowledge\<close> returned was not a fixpoint.
\<close>

theorem second_pass_changes:
  "add_knowledge sorted_list_of_set (MinesweeperAI 3 3) (0, 0) 1
     = Some (Returns \<lparr>height = 3, width = 3, moves_made = {(0, 0)}, mines = {}, safes = {(0, 0)},
          knowledge = [\<lparr>cells = {(0, 1), (1, 0), (1, 1)}, count = 1\<rparr>]\<rparr>)
   \<and> add_knowledge sorted_list_of_set
        \<lparr>height = 3, width = 3, moves_made = {(0, 0)}, mines = {}, safes = {(0, 0)},
          knowledge = [\<lparr>cells = {(0, 1), (1, 0), (1, 1)}, count = 1\<rparr>]\<rparr> (0, 2) 0
     = Some (Returns \<lparr>height = 3, width = 3, moves_made = {(0, 0), (0, 2)}, mines = {},
          safes = {(0, 0), (0, 1), (0, 2), (1, 1), (1, 2)},
          knowledge = [\<lparr>cells = {(1, 0)}, count = 1\<rparr>]\<rparr>)
   \<and> inference sorted_list_of_set
        \<lparr>height = 3, width = 3, moves_made = {(0, 0), (0, 2)}, mines = {},
          safes = {(0, 0), (0, 1), (0, 2), (1, 1), (1, 2)},
          knowledge = [\<lparr>cells = {(1, 0)}, count = 1\<rparr>]\<rparr>
     = Some (Returns \<lparr>height = 3, width = 3, moves_made = {(0, 0), (0, 2)}, mines = {(1, 0)},
          safes = {(0, 0), (0, 1), (0, 2), (1, 1), (1, 2)},
          knowledge = []\<rparr>)"
  by code_simp

end
